theory Spec2Isabelle
  imports Main "HOL-Library.Sublist" "HOL-Library.Word"
begin

section \<open>Key events\<close>

text \<open>
  The keyboard provider (\<^verbatim>\<open>KeyboardProvider\<close>, from line 59 of
  \<^verbatim>\<open>src/cli/src/ui/utils/welcomeMessage.ts\<close>; the line numbers below are those of that
  file) works on parsed keys: objects with a name, three modifier flags, a paste flag
  and the raw sequence. An absent or empty \<^verbatim>\<open>name\<close> is the empty string, which is what
  the source's test \<^verbatim>\<open>!parsedKey.name\<close> asks for. A JavaScript string is a list of
  characters; the handlers compare, concatenate and measure strings and look for
  markers in them. A \<^verbatim>\<open>Buffer\<close> is a list of bytes.
\<close>

type_synonym byte = "8 word"

record Key =
  name :: string
  ctrl :: bool
  meta :: bool
  shift :: bool
  paste :: bool
  sequence :: string

text \<open>
  Modelled from the spec: the constants of \<^verbatim>\<open>constants/keyboard/index.js\<close> are not among
  the sources. \<^verbatim>\<open>ESC\<close> and \<^verbatim>\<open>BACKSLASH\<close> are the characters their names say; the two
  fixed bracketed-paste markers are the ones the comment at line 210 of the source
  gives (\<^verbatim>\<open>ESC[200~\<close> and \<^verbatim>\<open>ESC[201~\<close>). \<open>CR\<close> and \<open>LF\<close> name the two characters of
  line 176.
\<close>

definition CR :: char where
  "CR = CHR 0x0D"

definition LF :: char where
  "LF = CHR 0x0A"

definition ESC :: string where
  "ESC = [CHR 0x1B]"

definition BACKSLASH :: string where
  "BACKSLASH = [CHR 0x5C]"

definition PASTE_MODE_PREFIX :: string where
  "PASTE_MODE_PREFIX = ESC @ ''[200~''"

definition PASTE_MODE_SUFFIX :: string where
  "PASTE_MODE_SUFFIX = ESC @ ''[201~''"

text \<open>
  Modelled from the spec: \<^verbatim>\<open>createPasteKey\<close> and \<^verbatim>\<open>createSpecialKey\<close> of
  \<^verbatim>\<open>utils/keyParsing.js\<close> are not among the sources. A paste event is a key event with
  \<^verbatim>\<open>paste = true\<close>, no name, and the pasted text as its sequence; a special key has the
  given name and sequence and no modifier.
\<close>

definition createPasteKey :: "string \<Rightarrow> Key" where
  "createPasteKey text =
     \<lparr>name = [], ctrl = False, meta = False, shift = False, paste = True, sequence = text\<rparr>"

definition createSpecialKey :: "string \<Rightarrow> string \<Rightarrow> Key" where
  "createSpecialKey nm sq =
     \<lparr>name = nm, ctrl = False, meta = False, shift = False, paste = False, sequence = sq\<rparr>"

section \<open>Strings and buffers as JavaScript has them\<close>

text \<open>
  \<^verbatim>\<open>hay.indexOf(needle, from)\<close>: the least position \<open>i \<ge> from\<close> at which \<open>needle\<close> starts
  in \<open>hay\<close>; \<open>None\<close> stands for \<^verbatim>\<open>-1\<close>.
\<close>

definition indexOf :: "string \<Rightarrow> string \<Rightarrow> nat \<Rightarrow> nat option" where
  "indexOf hay needle from =
     List.find (\<lambda>i. prefix needle (drop i hay)) [from ..< Suc (length hay)]"

text \<open>
  \<^verbatim>\<open>s.slice(a, b)\<close> with \<open>a \<le> b\<close>, of a string or of a \<^verbatim>\<open>Buffer\<close>: the elements from
  position \<open>a\<close> up to position \<open>b\<close>, as far as there are any. \<^verbatim>\<open>s.slice(a)\<close> is
  \<open>slice s a (length s)\<close>.
\<close>

definition slice :: "'a list \<Rightarrow> nat \<Rightarrow> nat \<Rightarrow> 'a list" where
  "slice s a b = take (b - a) (drop a s)"

text \<open>
  Line 176: \<^verbatim>\<open>currentBuffer.replace(/\r\n/g, "\n").replace(/\r/g, "\n")\<close>. The first
  replacement scans from the left and never looks again at what it has written; the
  second maps every remaining carriage return.
\<close>

fun replaceCRLF :: "string \<Rightarrow> string" where
  "replaceCRLF (c # d # cs) =
     (if c = CR \<and> d = LF then LF # replaceCRLF cs else c # replaceCRLF (d # cs))"
| "replaceCRLF cs = cs"

definition replaceCR :: "string \<Rightarrow> string" where
  "replaceCR cs = map (\<lambda>c. if c = CR then LF else c) cs"

definition normalizedBuffer :: "string \<Rightarrow> string" where
  "normalizedBuffer currentBuffer = replaceCR (replaceCRLF currentBuffer)"

section \<open>What the provider takes from elsewhere\<close>

text \<open>
  The classifiers of \<^verbatim>\<open>utils/keyParsing.js\<close> and the length bound of the constants file
  are used by the handlers but are not among the sources, so they are parameters of the
  model. \<^verbatim>\<open>isFocusEvent\<close> returns \<^verbatim>\<open>{isFocusIn, isFocusOut}\<close> and \<^verbatim>\<open>isPasteModeBoundary\<close>
  returns \<^verbatim>\<open>{isStart, isEnd}\<close> (pairs here, in that order); \<^verbatim>\<open>mapAltKeyCharacter\<close>
  returns a letter or null; \<^verbatim>\<open>parseKittySequence\<close> returns \<^verbatim>\<open>{key, consumedLength}\<close> with
  a null key when nothing was parsed. \<^verbatim>\<open>toString\<close> is the decoding of a \<^verbatim>\<open>Buffer\<close> into a
  string that line 424 asks of the platform. \<^verbatim>\<open>usePassthrough\<close> is computed from the
  version of the platform and the process environment (lines 226-231), which do not
  change.
\<close>

record env =
  isFocusEvent :: "string \<Rightarrow> bool \<times> bool"
  isPasteModeBoundary :: "string \<Rightarrow> bool \<times> bool"
  isDragStart :: "string \<Rightarrow> bool"
  mapAltKeyCharacter :: "string \<Rightarrow> string option"
  parseKittySequence :: "string \<Rightarrow> Key option \<times> nat"
  toString :: "byte list \<Rightarrow> string"
  MAX_KITTY_SEQUENCE_LENGTH :: nat
  usePassthrough :: bool

section \<open>Decoder state\<close>

text \<open>
  A timer is a handle and the callback it runs. The backslash timer's callback closes
  over the parsed key (lines 333-336). The drag timer's callback (lines 289-291) calls
  the \<^verbatim>\<open>completeDrag\<close> of the render whose effect installed the handler, and that
  \<^verbatim>\<open>completeDrag\<close> closes over the \<^verbatim>\<open>dragBuffer\<close> of its render (lines 186-193): the
  callback carries that string.
\<close>

datatype timer_action = BackslashTimeout Key | DragTimeout string

text \<open>
  The state of the provider.

  \<^item> Its refs (lines 142-147), which every closure shares.

  \<^item> The atoms it writes and reads.

  \<^item> The constants of the render whose effect is in place. The provider is a React
    component: each render reads the three buffer atoms and the protocol flag (lines
    135-138) into the constants \<^verbatim>\<open>pasteBuffer\<close>, \<^verbatim>\<open>dragBuffer\<close>, \<^verbatim>\<open>kittyBuffer\<close> and
    \<^verbatim>\<open>isKittyEnabled\<close>. The handlers, \<^verbatim>\<open>completeDrag\<close> and the cleanup are closures made
    by a render and its effect; what they read of these constants is the value at
    that render, whatever has been written to the atoms since.

  \<^item> The timers set, and what the provider has sent out: the keys passed to
    \<^verbatim>\<open>broadcastKey\<close>, in order, and the chunks written to the keypress stream.
\<close>

record decoder =
  isPasteRef :: bool
  pasteBufferRef :: string
  isDraggingRef :: bool
  dragTimerRef :: "nat option"
  backslashTimerRef :: "nat option"
  waitingForEnterRef :: bool
  isPasteModeAtom :: bool
  pasteBufferAtom :: string
  isDragModeAtom :: bool
  dragBufferAtom :: string
  kittySequenceBufferAtom :: string
  kittyProtocolEnabledAtom :: bool
  pasteBuffer :: string
  dragBuffer :: string
  kittyBuffer :: string
  isKittyEnabled :: bool
  timers :: "(timer_action \<times> bool) list"
  broadcast :: "Key list"
  written :: "byte list list"

text \<open>
  The provider once the protocol detection of lines 204-223 has set the protocol atom
  and the effect in place is the one of the render that read it: nothing captured,
  nothing buffered, nothing sent.
\<close>

definition initialDecoder :: "bool \<Rightarrow> decoder" where
  "initialDecoder kitty =
     \<lparr>isPasteRef = False, pasteBufferRef = [], isDraggingRef = False,
      dragTimerRef = None, backslashTimerRef = None, waitingForEnterRef = False,
      isPasteModeAtom = False, pasteBufferAtom = [], isDragModeAtom = False,
      dragBufferAtom = [], kittySequenceBufferAtom = [], kittyProtocolEnabledAtom = kitty,
      pasteBuffer = [], dragBuffer = [], kittyBuffer = [], isKittyEnabled = kitty,
      timers = [], broadcast = [], written = []\<rparr>"

text \<open>
  Modelled from the spec: the write atoms of \<^verbatim>\<open>state/atoms/keyboard.js\<close> are not among
  the sources. Each is the write its name says: the append atoms append to their buffer,
  the mode atoms set their flag, \<^verbatim>\<open>clearKittyBufferAtom\<close> empties the extended-sequence
  accumulator, and \<^verbatim>\<open>clearBuffersAtom\<close> clears "all decoder state (paste/drag/extended
  buffers)". \<^verbatim>\<open>broadcastKeyEventAtom\<close> hands the key to the subscribers; here it is
  recorded.
\<close>

definition broadcastKey :: "Key \<Rightarrow> decoder \<Rightarrow> decoder" where
  "broadcastKey k s = s\<lparr>broadcast := broadcast s @ [k]\<rparr>"

definition setPasteMode :: "bool \<Rightarrow> decoder \<Rightarrow> decoder" where
  "setPasteMode b s = s\<lparr>isPasteModeAtom := b\<rparr>"

definition appendToPasteBuffer :: "string \<Rightarrow> decoder \<Rightarrow> decoder" where
  "appendToPasteBuffer x s = s\<lparr>pasteBufferAtom := pasteBufferAtom s @ x\<rparr>"

definition setDragMode :: "bool \<Rightarrow> decoder \<Rightarrow> decoder" where
  "setDragMode b s = s\<lparr>isDragModeAtom := b\<rparr>"

definition appendToDragBuffer :: "string \<Rightarrow> decoder \<Rightarrow> decoder" where
  "appendToDragBuffer x s = s\<lparr>dragBufferAtom := dragBufferAtom s @ x\<rparr>"

definition appendToKittyBuffer :: "string \<Rightarrow> decoder \<Rightarrow> decoder" where
  "appendToKittyBuffer x s = s\<lparr>kittySequenceBufferAtom := kittySequenceBufferAtom s @ x\<rparr>"

definition clearKittyBuffer :: "decoder \<Rightarrow> decoder" where
  "clearKittyBuffer s = s\<lparr>kittySequenceBufferAtom := []\<rparr>"

definition clearBuffers :: "decoder \<Rightarrow> decoder" where
  "clearBuffers s = s\<lparr>pasteBufferAtom := [], dragBufferAtom := [], kittySequenceBufferAtom := []\<rparr>"

section \<open>Timers\<close>

text \<open>
  \<open>timers\<close> lists every timer set so far, with its callback and whether it is still
  pending; a timer's handle is its position in the list. \<^verbatim>\<open>setTimeout\<close> adds a pending
  timer and returns its handle; \<^verbatim>\<open>clearTimeout\<close> makes a timer not pending.
\<close>

definition setTimeout :: "timer_action \<Rightarrow> decoder \<Rightarrow> nat \<times> decoder" where
  "setTimeout act s = (length (timers s), s\<lparr>timers := timers s @ [(act, True)]\<rparr>)"

definition pending :: "decoder \<Rightarrow> nat \<Rightarrow> timer_action option" where
  "pending s t =
     (if t < length (timers s) \<and> snd (timers s ! t) then Some (fst (timers s ! t)) else None)"

definition clearTimeout :: "nat \<Rightarrow> decoder \<Rightarrow> decoder" where
  "clearTimeout t s =
     (if t < length (timers s) then s\<lparr>timers := (timers s)[t := (fst (timers s ! t), False)]\<rparr>
      else s)"

text \<open>Lines 155-168.\<close>

definition clearDragTimer :: "decoder \<Rightarrow> decoder" where
  "clearDragTimer s =
     (case dragTimerRef s of
        Some t \<Rightarrow> (clearTimeout t s)\<lparr>dragTimerRef := None\<rparr>
      | None \<Rightarrow> s)"

definition clearBackslashTimer :: "decoder \<Rightarrow> decoder" where
  "clearBackslashTimer s =
     (case backslashTimerRef s of
        Some t \<Rightarrow> (clearTimeout t s)\<lparr>backslashTimerRef := None\<rparr>
      | None \<Rightarrow> s)"

section \<open>Completing a paste or a drag\<close>

text \<open>
  Lines 171-183. An empty string is falsy, so an empty buffer completes nothing.
  \<^verbatim>\<open>completePaste\<close> reads refs only, so it is the same function at every render.
\<close>

definition completePaste :: "decoder \<Rightarrow> decoder" where
  "completePaste s =
     (let currentBuffer = pasteBufferRef s in
      if isPasteRef s \<and> currentBuffer \<noteq> [] then
        (setPasteMode False (broadcastKey (createPasteKey (normalizedBuffer currentBuffer)) s))
          \<lparr>isPasteRef := False, pasteBufferRef := []\<rparr>
      else s)"

text \<open>
  Lines 186-193. \<^verbatim>\<open>completeDrag\<close> is made anew by every render at which \<^verbatim>\<open>dragBuffer\<close>
  has changed (line 193); the first argument is the \<^verbatim>\<open>dragBuffer\<close> of the render that
  made the one called.
\<close>

definition completeDrag :: "string \<Rightarrow> decoder \<Rightarrow> decoder" where
  "completeDrag dragBufferConst s =
     clearDragTimer
       (if isDraggingRef s \<and> dragBufferConst \<noteq> [] then
          (setDragMode False (broadcastKey (createPasteKey dragBufferConst) s))
            \<lparr>isDraggingRef := False\<rparr>
        else s)"

section \<open>The keypress handler\<close>

text \<open>
  Lines 365-390, the loop over the accumulated buffer: parse a key off the front and
  broadcast it, or skip to the next \<^verbatim>\<open>ESC\<close> after the first character, or stop. The
  result is the buffer left, \<^verbatim>\<open>parsedAny\<close>, and the keys broadcast, in order. The loop
  ends only if the parser consumes something whenever it returns a key, which the
  source leaves to \<^verbatim>\<open>parseKittySequence\<close>; a loop that never ends is \<open>None\<close>.
\<close>

partial_function (option) kittyLoop ::
  "(string \<Rightarrow> Key option \<times> nat) \<Rightarrow> string \<Rightarrow> bool \<Rightarrow> Key list \<Rightarrow> (string \<times> bool \<times> Key list) option"
where
  "kittyLoop parse buffer parsedAny out =
     (if buffer = [] then Some (buffer, parsedAny, out)
      else
        (case parse buffer of
           (None, consumedLength) \<Rightarrow>
             (case indexOf buffer ESC 1 of
                Some nextStart \<Rightarrow>
                  if 0 < nextStart then kittyLoop parse (drop nextStart buffer) parsedAny out
                  else Some (buffer, parsedAny, out)
              | None \<Rightarrow> Some (buffer, parsedAny, out))
         | (Some key, consumedLength) \<Rightarrow>
             kittyLoop parse (drop consumedLength buffer) True (out @ [key])))"

declare kittyLoop.simps [code]

text \<open>Lines 411-417: Ctrl+C clears the buffers; the key is broadcast.\<close>

definition broadcastParsedKey :: "decoder \<Rightarrow> Key \<Rightarrow> decoder" where
  "broadcastParsedKey s parsedKey =
     broadcastKey parsedKey
       (if ctrl parsedKey \<and> name parsedKey = ''c'' then clearBuffers s else s)"

text \<open>
  Lines 347-417. \<^verbatim>\<open>kittyBuffer\<close> (lines 365 and 401) and \<^verbatim>\<open>isKittyEnabled\<close> (line 348)
  are the constants of the render whose effect installed the handler; the appends and
  the clearing (lines 362, 393, 395, 405) write to the atom.
\<close>

definition handleKitty :: "env \<Rightarrow> decoder \<Rightarrow> Key \<Rightarrow> decoder option" where
  "handleKitty h s parsedKey =
     (if isKittyEnabled s \<and> prefix ESC (sequence parsedKey) then
        (case parseKittySequence h (sequence parsedKey) of
           (Some key, consumedLength) \<Rightarrow> Some (broadcastKey key s)
         | (None, consumedLength) \<Rightarrow>
             (let s1 = appendToKittyBuffer (sequence parsedKey) s in
              case kittyLoop (parseKittySequence h) (kittyBuffer s @ sequence parsedKey) False [] of
                None \<Rightarrow> None
              | Some (buffer, parsedAny, out) \<Rightarrow>
                  (let s2 = s1\<lparr>broadcast := broadcast s1 @ out\<rparr> in
                   if parsedAny then
                     Some (let s3 = clearKittyBuffer s2 in
                           if buffer \<noteq> [] then appendToKittyBuffer buffer s3 else s3)
                   else if MAX_KITTY_SEQUENCE_LENGTH h < length (kittyBuffer s) then
                     Some (broadcastParsedKey (clearKittyBuffer s2) parsedKey)
                   else Some s2)))
      else Some (broadcastParsedKey s parsedKey))"

text \<open>
  Lines 285-292: the drag branch, which restarts the completion timer. The timer's
  callback calls the \<^verbatim>\<open>completeDrag\<close> the handler closes over.
\<close>

definition continueDrag :: "decoder \<Rightarrow> Key \<Rightarrow> decoder" where
  "continueDrag s parsedKey =
     (let s1 = clearDragTimer (appendToDragBuffer (sequence parsedKey) (s\<lparr>isDraggingRef := True\<rparr>));
          (t, s2) = setTimeout (DragTimeout (dragBuffer s)) s1
      in s2\<lparr>dragTimerRef := Some t\<rparr>)"

text \<open>
  Lines 332-337: a lone backslash waits for Return. The timer set before, if any, is
  not cleared here: the ref is overwritten.
\<close>

definition waitForEnter :: "decoder \<Rightarrow> Key \<Rightarrow> decoder" where
  "waitForEnter s parsedKey =
     (let (t, s1) = setTimeout (BackslashTimeout parsedKey) (s\<lparr>waitingForEnterRef := True\<rparr>)
      in s1\<lparr>backslashTimerRef := Some t\<rparr>)"

text \<open>Lines 340-345: a pending backslash is sent before a key that is not Return.\<close>

definition flushBackslash :: "decoder \<Rightarrow> Key \<Rightarrow> decoder" where
  "flushBackslash s parsedKey =
     (if waitingForEnterRef s \<and> name parsedKey \<noteq> ''return'' then
        broadcastKey (createSpecialKey [] BACKSLASH)
          ((clearBackslashTimer s)\<lparr>waitingForEnterRef := False\<rparr>)
      else s)"

text \<open>
  Lines 244-418, in the source's order. The argument is the parsed key
  (\<^verbatim>\<open>parseReadlineKey\<close> is not among the sources); debug logging is left out.
\<close>

definition handleKeypress :: "env \<Rightarrow> decoder \<Rightarrow> Key \<Rightarrow> decoder option" where
  "handleKeypress h s parsedKey =
     (let sq = sequence parsedKey;
          focus = isFocusEvent h sq;
          pasteB = isPasteModeBoundary h sq;
          mappedLetter = mapAltKeyCharacter h sq
      in
      if fst focus \<or> snd focus then Some s
      else if fst pasteB then
        Some (setPasteMode True (s\<lparr>isPasteRef := True, pasteBufferRef := []\<rparr>))
      else if snd pasteB then Some (completePaste s)
      else if isPasteRef s then
        (if \<not> usePassthrough h then
           Some (appendToPasteBuffer sq (s\<lparr>pasteBufferRef := pasteBufferRef s @ sq\<rparr>))
         else Some s)
      else if isDragStart h sq \<or> isDraggingRef s then Some (continueDrag s parsedKey)
      else if mappedLetter \<noteq> None \<and> mappedLetter \<noteq> Some [] \<and> \<not> meta parsedKey then
        Some (broadcastKey (parsedKey\<lparr>name := the mappedLetter, meta := True\<rparr>) s)
      else if name parsedKey = ''return'' \<and> waitingForEnterRef s then
        Some (broadcastKey (parsedKey\<lparr>shift := True\<rparr>)
                ((clearBackslashTimer s)\<lparr>waitingForEnterRef := False\<rparr>))
      else if sq = ESC @ [CR] \<or> sq = ESC @ [LF] then
        Some (broadcastKey
                \<lparr>name = ''return'', ctrl = False, meta = False, shift = True, paste = False,
                 sequence = sq\<rparr> s)
      else if sq = BACKSLASH \<and> name parsedKey = [] then Some (waitForEnter s parsedKey)
      else handleKitty h (flushBackslash s parsedKey) parsedKey)"

text \<open>Line 245: a keypress event without a key is ignored.\<close>

definition onKeypress :: "env \<Rightarrow> decoder \<Rightarrow> Key option \<Rightarrow> decoder option" where
  "onKeypress h s key = (case key of None \<Rightarrow> Some s | Some k \<Rightarrow> handleKeypress h s k)"

section \<open>Timer callbacks\<close>

text \<open>
  A pending timer fires: it leaves the event loop and its callback runs. The backslash
  callback (lines 334-335) does not reset \<^verbatim>\<open>backslashTimerRef\<close>. A handle that is not
  pending does nothing.
\<close>

definition fireTimer :: "nat \<Rightarrow> decoder \<Rightarrow> decoder" where
  "fireTimer t s =
     (case pending s t of
        None \<Rightarrow> s
      | Some act \<Rightarrow>
          (let s1 = clearTimeout t s in
           case act of
             BackslashTimeout parsedKey \<Rightarrow> broadcastKey parsedKey (s1\<lparr>waitingForEnterRef := False\<rparr>)
           | DragTimeout dragBufferConst \<Rightarrow> completeDrag dragBufferConst s1))"

section \<open>The raw-data handler\<close>

text \<open>
  Lines 421-484, installed on stdin when \<^verbatim>\<open>usePassthrough\<close> holds. \<^verbatim>\<open>data\<close> is the
  \<^verbatim>\<open>Buffer\<close> received and \<^verbatim>\<open>dataStr\<close> its decoding (line 424). Lines 429-442 choose the
  next marker in \<^verbatim>\<open>dataStr\<close>: its position, and whether it is the prefix.
\<close>

definition nextMarker :: "string \<Rightarrow> nat \<Rightarrow> (nat \<times> bool) option" where
  "nextMarker dataStr pos =
     (let prefixPos = indexOf dataStr PASTE_MODE_PREFIX pos;
          suffixPos = indexOf dataStr PASTE_MODE_SUFFIX pos
      in
      if prefixPos \<noteq> None \<and> (suffixPos = None \<or> the prefixPos < the suffixPos) then
        Some (the prefixPos, True)
      else if suffixPos \<noteq> None then Some (the suffixPos, False)
      else None)"

text \<open>
  Lines 446-454 and 460-468: what lies outside the markers goes to the paste buffer in
  paste mode and to the keypress stream otherwise. The paste buffer gets the slice of
  the string (lines 448, 462); the keypress stream gets the slice of the \<^verbatim>\<open>Buffer\<close>
  between the same two positions (lines 453, 467), positions that were found in the
  string.
\<close>

definition routeChunk :: "byte list \<Rightarrow> string \<Rightarrow> decoder \<Rightarrow> decoder" where
  "routeChunk dataSlice chunk s =
     (if isPasteRef s then
        appendToPasteBuffer chunk (s\<lparr>pasteBufferRef := pasteBufferRef s @ chunk\<rparr>)
      else s\<lparr>written := written s @ [dataSlice]\<rparr>)"

text \<open>Lines 459-469: the data before the marker, if there is any.\<close>

definition beforeMarker :: "decoder \<Rightarrow> byte list \<Rightarrow> string \<Rightarrow> nat \<Rightarrow> nat \<Rightarrow> decoder" where
  "beforeMarker s data dataStr pos nextMarkerPos =
     (if pos < nextMarkerPos then
        routeChunk (slice data pos nextMarkerPos) (slice dataStr pos nextMarkerPos) s
      else s)"

lemma indexOf_ge: "indexOf hay needle from = Some n \<Longrightarrow> from \<le> n"
proof -
  assume "indexOf hay needle from = Some n"
  then have "n \<in> set [from ..< Suc (length hay)]"
    unfolding indexOf_def by (metis find_Some_iff nth_mem)
  then show ?thesis by auto
qed

lemma nextMarker_ge: "nextMarker dataStr pos = Some (n, b) \<Longrightarrow> pos \<le> n"
  by (auto simp: nextMarker_def Let_def split: if_splits dest: indexOf_ge)

function rawLoop :: "decoder \<Rightarrow> byte list \<Rightarrow> string \<Rightarrow> nat \<Rightarrow> decoder" where
  "rawLoop s data dataStr pos =
     (if pos < length dataStr then
        (case nextMarker dataStr pos of
           None \<Rightarrow>
             routeChunk (slice data pos (length data)) (slice dataStr pos (length dataStr)) s
         | Some (nextMarkerPos, isPrefixNext) \<Rightarrow>
             (let s1 = beforeMarker s data dataStr pos nextMarkerPos in
              if isPrefixNext then
                rawLoop (setPasteMode True (s1\<lparr>isPasteRef := True, pasteBufferRef := []\<rparr>))
                  data dataStr (nextMarkerPos + length PASTE_MODE_PREFIX)
              else
                rawLoop (completePaste s1) data dataStr (nextMarkerPos + length PASTE_MODE_SUFFIX)))
      else s)"
  by pat_completeness auto
termination
  by (relation "measure (\<lambda>(s, data, dataStr, pos). length dataStr - pos)")
     (auto dest: nextMarker_ge simp: PASTE_MODE_PREFIX_def PASTE_MODE_SUFFIX_def)

declare rawLoop.simps [simp del]

definition handleRawData :: "env \<Rightarrow> decoder \<Rightarrow> byte list \<Rightarrow> decoder" where
  "handleRawData h s data =
     (if \<not> usePassthrough h then s else rawLoop s data (toString h data) 0)"

section \<open>Renders and the effect cleanup\<close>

text \<open>
  The effect that installs the handlers (lines 195-549) lists \<^verbatim>\<open>pasteBuffer\<close>,
  \<^verbatim>\<open>dragBuffer\<close>, \<^verbatim>\<open>kittyBuffer\<close> and \<^verbatim>\<open>isKittyEnabled\<close> among its dependencies (lines
  539-542), and \<^verbatim>\<open>completeDrag\<close>, which changes with \<^verbatim>\<open>dragBuffer\<close>. So a render at which
  one of them differs from its value at the render of the effect in place runs the
  cleanup of that effect and then the effect anew.

  Lines 493-525, the cleanup: both timers are cleared, and a paste or a drag in flight
  is completed, by the \<^verbatim>\<open>completeDrag\<close> of the render of the effect being cleaned up;
  then the buffers are cleared. What the cleanup and the new effect do to the streams
  and the terminal (lines 494-515 and 197-241) is not part of the state. The protocol
  detection that the new effect starts (lines 204-223) is taken to set the protocol
  atom to the value it has.
\<close>

definition cleanup :: "decoder \<Rightarrow> decoder" where
  "cleanup s =
     clearBuffers
       (completeDrag (dragBuffer s) (completePaste (clearBackslashTimer (clearDragTimer s))))"

text \<open>
  A render reads the atoms, and only then, after the commit, the cleanup runs: the
  handlers of the new effect close over the values read before the cleanup cleared
  the buffers. The render and the effect run that follows it are one step here: no
  input is handled in between. The other dependencies of the effect are the stdin
  stream, the setters and callbacks without dependencies of their own, and the
  configuration, which stay the same, and the debug flag, which the model leaves out
  with the logging.
\<close>

definition render :: "decoder \<Rightarrow> decoder" where
  "render s =
     (let p = pasteBufferAtom s; d = dragBufferAtom s; k = kittySequenceBufferAtom s;
          e = kittyProtocolEnabledAtom s
      in
      if p = pasteBuffer s \<and> d = dragBuffer s \<and> k = kittyBuffer s \<and> e = isKittyEnabled s then s
      else (cleanup s)\<lparr>pasteBuffer := p, dragBuffer := d, kittyBuffer := k, isKittyEnabled := e\<rparr>)"

section \<open>Runs\<close>

text \<open>
  What happens to the provider, one event-loop callback at a time: a keypress event, a
  chunk of raw data, a pending timer firing, or a render of the component. React
  renders some time after an atom the component reads has changed; a run says when.
  The inputs between two renders are those handled by the same closures. The keypress
  events are the ones readline makes, of stdin or, when raw data is intercepted, of
  the chunks written to the keypress stream; readline and the streams are the
  platform's and not part of the model, so a run lists the keypresses that arrive. A
  run feeds a list of inputs in order; it has no result when a handler does not
  return.
\<close>

datatype input = Keypress Key | RawData "byte list" | TimerFires nat | Render

definition step :: "env \<Rightarrow> decoder \<Rightarrow> input \<Rightarrow> decoder option" where
  "step h s i =
     (case i of
        Keypress k \<Rightarrow> handleKeypress h s k
      | RawData d \<Rightarrow> Some (handleRawData h s d)
      | TimerFires t \<Rightarrow> Some (fireTimer t s)
      | Render \<Rightarrow> Some (render s))"

fun run :: "env \<Rightarrow> decoder \<Rightarrow> input list \<Rightarrow> decoder option" where
  "run h s [] = Some s"
| "run h s (i # is) = (case step h s i of None \<Rightarrow> None | Some s' \<Rightarrow> run h s' is)"

section \<open>A sample environment\<close>

text \<open>
  Modelled from the spec: the classifiers and the parser of \<^verbatim>\<open>utils/keyParsing.js\<close> are
  not among the sources, and the general theorems below hold whatever they are. To run
  the handlers on concrete input, this environment fixes one possible choice: the focus
  reports \<^verbatim>\<open>ESC[I\<close> and \<^verbatim>\<open>ESC[O\<close>; the two paste markers, matched exactly; a quote
  character as the start of a drag; \<^verbatim>\<open>ESC\<close> followed by one lower-case letter as an Alt
  character; and a parser for the sequences \<^verbatim>\<open>ESC [ digits u\<close>, which returns a key named
  by the digits and the length consumed when a whole sequence is at the front of the
  buffer, and no key otherwise. The length bound is the spec's example, 256. The sample
  inputs hold bytes below \<open>0x80\<close> only, which every decoding of the platform maps to the
  character with that code; \<open>decodeAscii\<close> does that (and gives the other bytes the
  character with their code as well, which no sample input asks for).
\<close>

definition isDigit :: "char \<Rightarrow> bool" where
  "isDigit c = (c \<in> set ''0123456789'')"

definition sampleParse :: "string \<Rightarrow> Key option \<times> nat" where
  "sampleParse buffer =
     (if prefix (ESC @ ''['') buffer then
        (let digits = takeWhile isDigit (drop 2 buffer);
             rest = dropWhile isDigit (drop 2 buffer)
         in if digits \<noteq> [] \<and> prefix ''u'' rest then
              (Some (createSpecialKey digits (take (length digits + 3) buffer)),
               length digits + 3)
            else (None, 0))
      else (None, 0))"

definition sampleAlt :: "string \<Rightarrow> string option" where
  "sampleAlt sq =
     (case sq of
        [e, c] \<Rightarrow> if [e] = ESC \<and> c \<in> set ''abcdefghijklmnopqrstuvwxyz'' then Some [c] else None
      | _ \<Rightarrow> None)"

definition decodeAscii :: "byte list \<Rightarrow> string" where
  "decodeAscii data = map (\<lambda>b. char_of (unat b)) data"

definition sampleEnv :: "bool \<Rightarrow> env" where
  "sampleEnv passthrough =
     \<lparr>isFocusEvent = (\<lambda>sq. (sq = ESC @ ''[I'', sq = ESC @ ''[O'')),
      isPasteModeBoundary = (\<lambda>sq. (sq = PASTE_MODE_PREFIX, sq = PASTE_MODE_SUFFIX)),
      isDragStart = (\<lambda>sq. sq = [CHR 0x27] \<or> sq = [CHR 0x22]),
      mapAltKeyCharacter = sampleAlt,
      parseKittySequence = sampleParse,
      toString = decodeAscii,
      MAX_KITTY_SEQUENCE_LENGTH = 256,
      usePassthrough = passthrough\<rparr>"

text \<open>
  Sample keys, as \<^verbatim>\<open>parseReadlineKey\<close> would hand them over, and the bytes of a string
  of characters below \<open>0x80\<close>.
\<close>

definition rawKey :: "string \<Rightarrow> Key" where
  "rawKey sq = createSpecialKey [] sq"


definition ctrlC :: Key where
  "ctrlC = (createSpecialKey ''c'' [CHR 0x03])\<lparr>ctrl := True\<rparr>"

definition bytesOf :: "string \<Rightarrow> byte list" where
  "bytesOf text = map (\<lambda>c. of_nat (of_char c)) text"

text \<open>
  The Escape key, as readline reports a lone \<^verbatim>\<open>ESC\<close> when its escape timeout has passed:
  named \<^verbatim>\<open>escape\<close>, with \<^verbatim>\<open>meta\<close> set.
\<close>

definition escapeKey :: Key where
  "escapeKey = (createSpecialKey ''escape'' ESC)\<lparr>meta := True\<rparr>"

section \<open>Which branch takes a key\<close>

text \<open>
  The decoder is idle when it captures neither a paste nor a drag. A key is plain when
  no classifier of lines 255-304 claims it: it is no focus report, no paste boundary, it
  starts no drag, and it is not an Alt character. An idle decoder hands a plain key to
  the branches from line 306 on.
\<close>

definition idle :: "decoder \<Rightarrow> bool" where
  "idle s = (\<not> isPasteRef s \<and> \<not> isDraggingRef s)"

definition plainKey :: "env \<Rightarrow> Key \<Rightarrow> bool" where
  "plainKey h k =
     (let sq = sequence k in
      \<not> fst (isFocusEvent h sq) \<and> \<not> snd (isFocusEvent h sq) \<and>
      \<not> fst (isPasteModeBoundary h sq) \<and> \<not> snd (isPasteModeBoundary h sq) \<and>
      \<not> isDragStart h sq \<and>
      (mapAltKeyCharacter h sq = None \<or> mapAltKeyCharacter h sq = Some [] \<or> meta k))"

lemmas atom_defs =
  broadcastKey_def setPasteMode_def appendToPasteBuffer_def setDragMode_def
  appendToDragBuffer_def appendToKittyBuffer_def clearKittyBuffer_def clearBuffers_def

lemmas timer_defs =
  setTimeout_def pending_def clearTimeout_def clearDragTimer_def clearBackslashTimer_def

lemmas char_defs =
  CR_def LF_def ESC_def BACKSLASH_def PASTE_MODE_PREFIX_def PASTE_MODE_SUFFIX_def

text \<open>
  A key that a paste captures (lines 255-281): it is no focus report and no paste
  boundary. A key that starts a paste, and one that ends it (lines 255-271): it is no
  focus report and the classifier says start, or not start but end. A string that
  holds no paste marker: the raw-data handler finds none in it.
\<close>

definition pasteContent :: "env \<Rightarrow> Key \<Rightarrow> bool" where
  "pasteContent h k =
     (\<not> fst (isFocusEvent h (sequence k)) \<and> \<not> snd (isFocusEvent h (sequence k)) \<and>
      \<not> fst (isPasteModeBoundary h (sequence k)) \<and> \<not> snd (isPasteModeBoundary h (sequence k)))"

definition pasteStartKey :: "env \<Rightarrow> Key \<Rightarrow> bool" where
  "pasteStartKey h k =
     (\<not> fst (isFocusEvent h (sequence k)) \<and> \<not> snd (isFocusEvent h (sequence k)) \<and>
      fst (isPasteModeBoundary h (sequence k)))"

definition pasteEndKey :: "env \<Rightarrow> Key \<Rightarrow> bool" where
  "pasteEndKey h k =
     (\<not> fst (isFocusEvent h (sequence k)) \<and> \<not> snd (isFocusEvent h (sequence k)) \<and>
      \<not> fst (isPasteModeBoundary h (sequence k)) \<and> snd (isPasteModeBoundary h (sequence k)))"

definition markerFree :: "string \<Rightarrow> bool" where
  "markerFree c =
     (indexOf c PASTE_MODE_PREFIX 0 = None \<and> indexOf c PASTE_MODE_SUFFIX 0 = None)"

section \<open>Paste and drag\<close>

text \<open>
  At most one of the two captures is active. The one input that sets both flags is a
  paste start during a drag: a keypress that is a paste start marker (and no focus
  report), or, when raw data is intercepted, a chunk that holds the paste prefix. A run
  avoids it when no input of the run is such an input in the state it meets.
\<close>

definition exclusive :: "decoder \<Rightarrow> bool" where
  "exclusive s = (\<not> (isPasteRef s \<and> isDraggingRef s))"

definition pasteStartsInDrag :: "env \<Rightarrow> decoder \<Rightarrow> input \<Rightarrow> bool" where
  "pasteStartsInDrag h s i =
     (isDraggingRef s \<and>
      (case i of
         Keypress k \<Rightarrow>
           \<not> fst (isFocusEvent h (sequence k)) \<and> \<not> snd (isFocusEvent h (sequence k)) \<and>
           fst (isPasteModeBoundary h (sequence k))
       | RawData d \<Rightarrow> usePassthrough h \<and> indexOf (toString h d) PASTE_MODE_PREFIX 0 \<noteq> None
       | TimerFires t \<Rightarrow> False
       | Render \<Rightarrow> False))"

fun avoidsPasteInDrag :: "env \<Rightarrow> decoder \<Rightarrow> input list \<Rightarrow> bool" where
  "avoidsPasteInDrag h s [] = True"
| "avoidsPasteInDrag h s (i # is) =
     (\<not> pasteStartsInDrag h s i \<and>
      (case step h s i of None \<Rightarrow> True | Some s' \<Rightarrow> avoidsPasteInDrag h s' is))"

section \<open>Other length bounds\<close>

text \<open>
  Modelled from the spec: the sample environment with the length bound \<open>m\<close> instead of
  256. With a bound of 8 an overflow of the accumulator is a few characters long.
\<close>

definition sampleBound :: "nat \<Rightarrow> env" where
  "sampleBound m = (sampleEnv False)\<lparr>MAX_KITTY_SEQUENCE_LENGTH := m\<rparr>"

section \<open>The event emitter\<close>




text \<open>The values of a set, in iteration order.\<close>

definition setValues :: "nat option list \<Rightarrow> nat list" where
  "setValues entries = concat (map (\<lambda>e. case e of None \<Rightarrow> [] | Some fn \<Rightarrow> [fn]) entries)"




text \<open>
  A call of one of these three: \<^verbatim>\<open>event(fn)\<close>, the \<^verbatim>\<open>dispose\<close> of the disposable
  returned for \<open>fn\<close>, and the emitter's \<^verbatim>\<open>dispose\<close>. The set of an emitter is what its
  history of calls makes of the empty set it starts with.
\<close>

datatype call = Subscribe nat | Unsubscribe nat | DisposeAll



text \<open>
  What a call of a listener does: it may throw, it changes the world outside the
  emitter, and it may subscribe and dispose listeners of this emitter while it runs.
\<close>

record ('w, 'x) outcome =
  thrown :: "'x option"
  world :: 'w
  reentrant :: "call list"




text \<open>The world after the given listeners were called in turn.\<close>

definition worldAfter :: "(nat \<Rightarrow> 'e \<Rightarrow> 'w \<Rightarrow> ('w, 'x) outcome) \<Rightarrow> 'e \<Rightarrow> nat list \<Rightarrow> 'w \<Rightarrow> 'w" where
  "worldAfter fns data fs w = fold (\<lambda>fn w. world (fns fn data w)) fs w"



section \<open>Basic facts\<close>

lemma handleKeypress_plain:
  assumes "idle s" and "plainKey h k"
  shows "handleKeypress h s k =
     (if name k = ''return'' \<and> waitingForEnterRef s then
        Some (broadcastKey (k\<lparr>shift := True\<rparr>)
                ((clearBackslashTimer s)\<lparr>waitingForEnterRef := False\<rparr>))
      else if sequence k = ESC @ [CR] \<or> sequence k = ESC @ [LF] then
        Some (broadcastKey
                \<lparr>name = ''return'', ctrl = False, meta = False, shift = True, paste = False,
                 sequence = sequence k\<rparr> s)
      else if sequence k = BACKSLASH \<and> name k = [] then Some (waitForEnter s k)
      else handleKitty h (flushBackslash s k) k)"
proof -
  have f: "\<not> (fst (isFocusEvent h (sequence k)) \<or> snd (isFocusEvent h (sequence k)))"
    and b1: "\<not> fst (isPasteModeBoundary h (sequence k))"
    and b2: "\<not> snd (isPasteModeBoundary h (sequence k))"
    and p: "\<not> isPasteRef s"
    and d: "\<not> (isDragStart h (sequence k) \<or> isDraggingRef s)"
    and a: "\<not> (mapAltKeyCharacter h (sequence k) \<noteq> None \<and>
               mapAltKeyCharacter h (sequence k) \<noteq> Some [] \<and> \<not> meta k)"
    using assms unfolding idle_def plainKey_def Let_def by auto
  show ?thesis
    unfolding handleKeypress_def Let_def
    by (simp only: f b1 b2 p d a if_False)
qed

lemma clearBackslashTimer_fields [simp]:
  "broadcast (clearBackslashTimer s) = broadcast s"
  "isPasteRef (clearBackslashTimer s) = isPasteRef s"
  "isDraggingRef (clearBackslashTimer s) = isDraggingRef s"
  "pasteBufferRef (clearBackslashTimer s) = pasteBufferRef s"
  "kittySequenceBufferAtom (clearBackslashTimer s) = kittySequenceBufferAtom s"
  "kittyProtocolEnabledAtom (clearBackslashTimer s) = kittyProtocolEnabledAtom s"
  "kittyBuffer (clearBackslashTimer s) = kittyBuffer s"
  "isKittyEnabled (clearBackslashTimer s) = isKittyEnabled s"
  "waitingForEnterRef (clearBackslashTimer s) = waitingForEnterRef s"
  by (simp_all add: clearBackslashTimer_def clearTimeout_def split: option.splits)

lemma waitForEnter_fields [simp]:
  "broadcast (waitForEnter s k) = broadcast s"
  "isPasteRef (waitForEnter s k) = isPasteRef s"
  "isDraggingRef (waitForEnter s k) = isDraggingRef s"
  "waitingForEnterRef (waitForEnter s k)"
  "backslashTimerRef (waitForEnter s k) = Some (length (timers s))"
  "pending (waitForEnter s k) (length (timers s)) = Some (BackslashTimeout k)"
  by (simp_all add: waitForEnter_def setTimeout_def pending_def)

lemma idle_waitForEnter [simp]: "idle (waitForEnter s k) = idle s"
  by (simp add: idle_def)

section \<open>The backslash heuristic\<close>




section \<open>Short runs and sample keys\<close>


lemma idle_initial: "idle (initialDecoder kitty)"
  by (simp add: idle_def initialDecoder_def)







section \<open>What a key adds to the broadcast keys\<close>

lemma kittyLoop_out_prefix:
  assumes "kittyLoop parse buffer parsedAny out = Some y"
  shows "prefix out (snd (snd y))"
  by (rule kittyLoop.raw_induct
        [where P = "\<lambda>parse buffer parsedAny out y. prefix out (snd (snd y))", OF _ assms])
     (auto split: if_splits prod.splits option.splits, metis append_prefixD)

lemma broadcastParsedKey_broadcast:
  "broadcast (broadcastParsedKey s k) = broadcast s @ [k]"
  by (simp add: broadcastParsedKey_def atom_defs)

lemma handleKitty_broadcast_prefix:
  assumes "handleKitty h s k = Some s'"
  shows "prefix (broadcast s) (broadcast s')"
  using assms unfolding handleKitty_def Let_def
  by (auto simp: atom_defs broadcastParsedKey_broadcast
           split: if_splits prod.splits option.splits)

lemma pending_clearTimeout [simp]: "pending (clearTimeout t s) t = None"
  by (simp add: pending_def clearTimeout_def)


lemma flushBackslash_fields [simp]:
  "isPasteRef (flushBackslash s k) = isPasteRef s"
  "isDraggingRef (flushBackslash s k) = isDraggingRef s"
  "kittySequenceBufferAtom (flushBackslash s k) = kittySequenceBufferAtom s"
  "kittyProtocolEnabledAtom (flushBackslash s k) = kittyProtocolEnabledAtom s"
  "kittyBuffer (flushBackslash s k) = kittyBuffer s"
  "isKittyEnabled (flushBackslash s k) = isKittyEnabled s"
  by (simp_all add: flushBackslash_def atom_defs)

lemma flushBackslash_not_waiting [simp]:
  "\<not> waitingForEnterRef s \<Longrightarrow> flushBackslash s k = s"
  by (simp add: flushBackslash_def)

lemma idle_flushBackslash [simp]: "idle (flushBackslash s k) = idle s"
  by (simp add: idle_def)

lemma handleKeypress_past_heuristics:
  assumes "idle s" and "plainKey h k" and "name k \<noteq> ''return'' \<or> \<not> waitingForEnterRef s"
    and "sequence k \<noteq> ESC @ [CR]" and "sequence k \<noteq> ESC @ [LF]"
    and "sequence k \<noteq> BACKSLASH \<or> name k \<noteq> []"
  shows "handleKeypress h s k = handleKitty h (flushBackslash s k) k"
proof -
  have c: "(name k = ''return'' \<and> waitingForEnterRef s) = False"
    "(sequence k = ESC @ [CR] \<or> sequence k = ESC @ [LF]) = False"
    "(sequence k = BACKSLASH \<and> name k = []) = False"
    using assms by auto
  show ?thesis
    by (simp only: handleKeypress_plain [OF assms(1,2)] c if_False)
qed

section \<open>A pending backslash and the next key\<close>

text \<open>
  Claim C8, as amended. The decoder is idle and waits for Return after a backslash. A
  plain key arrives that is not named \<^verbatim>\<open>return\<close> and that none of the earlier branches
  takes (it is not \<^verbatim>\<open>ESC\<close> with a line end and not another lone backslash). Then the
  pending timer is cancelled, the backslash is broadcast first as a key without name
  and modifiers, the decoder stops waiting, and the key itself is handled as it would be
  in that state: whatever is broadcast for it comes after the backslash.
\<close>

theorem pending_backslash_flushed:
  assumes "idle s" and "plainKey h k" and "waitingForEnterRef s"
    and "name k \<noteq> ''return''"
    and "sequence k \<noteq> ESC @ [CR]" and "sequence k \<noteq> ESC @ [LF]"
    and "sequence k \<noteq> BACKSLASH \<or> name k \<noteq> []"
  shows "\<exists>s0. broadcast s0 = broadcast s @ [createSpecialKey [] BACKSLASH] \<and>
           \<not> waitingForEnterRef s0 \<and>
           (\<forall>t. backslashTimerRef s = Some t \<longrightarrow> pending s0 t = None) \<and>
           handleKeypress h s k = handleKeypress h s0 k \<and>
           (\<forall>s'. handleKeypress h s k = Some s' \<longrightarrow> prefix (broadcast s0) (broadcast s'))"
proof -
  let ?s0 = "flushBackslash s k"
  have s0: "?s0 = broadcastKey (createSpecialKey [] BACKSLASH)
                    ((clearBackslashTimer s)\<lparr>waitingForEnterRef := False\<rparr>)"
    using assms(3,4) by (simp add: flushBackslash_def)
  have b: "broadcast ?s0 = broadcast s @ [createSpecialKey [] BACKSLASH]"
    unfolding s0 by (simp add: broadcastKey_def)
  have w: "\<not> waitingForEnterRef ?s0"
    unfolding s0 by (simp add: broadcastKey_def)
  have t: "\<forall>t. backslashTimerRef s = Some t \<longrightarrow> pending ?s0 t = None"
    unfolding s0 by (simp add: broadcastKey_def clearBackslashTimer_def pending_def clearTimeout_def)
  have 1: "handleKeypress h s k = handleKitty h ?s0 k"
    using assms by (simp add: handleKeypress_past_heuristics)
  have 2: "handleKeypress h ?s0 k = handleKitty h ?s0 k"
    using assms w by (simp add: handleKeypress_past_heuristics)
  have p: "\<forall>s'. handleKeypress h s k = Some s' \<longrightarrow> prefix (broadcast ?s0) (broadcast s')"
    unfolding 1 by (blast intro: handleKitty_broadcast_prefix)
  show ?thesis
  proof (intro exI [of _ "?s0"] conjI)
    show "handleKeypress h s k = handleKeypress h ?s0 k"
      by (simp only: 1 2)
  qed (rule b w t p)+
qed



theorem pending_backslash_flushed_witness:
  "idle (waitForEnter (initialDecoder False) (rawKey BACKSLASH)) \<and>
   plainKey (sampleEnv False) (rawKey ''a'') \<and>
   waitingForEnterRef (waitForEnter (initialDecoder False) (rawKey BACKSLASH)) \<and>
   (\<exists>s0. broadcast s0 = [createSpecialKey [] BACKSLASH] \<and>
      \<not> waitingForEnterRef s0 \<and> pending s0 0 = None \<and>
      handleKeypress (sampleEnv False) (waitForEnter (initialDecoder False) (rawKey BACKSLASH))
        (rawKey ''a'') = handleKeypress (sampleEnv False) s0 (rawKey ''a''))"
proof -
  let ?s = "waitForEnter (initialDecoder False) (rawKey BACKSLASH)"
  have i: "idle ?s"
    by (simp add: idle_initial)
  have p: "plainKey (sampleEnv False) (rawKey ''a'')"
    by (simp add: plainKey_def sampleEnv_def rawKey_def createSpecialKey_def char_defs sampleAlt_def)
  have w: "waitingForEnterRef ?s"
    by simp
  have k: "name (rawKey ''a'') \<noteq> ''return''" "sequence (rawKey ''a'') \<noteq> ESC @ [CR]"
    "sequence (rawKey ''a'') \<noteq> ESC @ [LF]"
    "sequence (rawKey ''a'') \<noteq> BACKSLASH \<or> name (rawKey ''a'') \<noteq> []"
    by (simp_all add: rawKey_def createSpecialKey_def char_defs)
  have t: "backslashTimerRef ?s = Some 0" and b: "broadcast ?s = []"
    and tm: "length (timers (initialDecoder False)) = 0"
    by (simp_all add: initialDecoder_def)
  from pending_backslash_flushed [OF i p w k]
  show ?thesis
    using i p w unfolding b by (auto simp: t tm)
qed

text \<open>
  The claim as stated fails for a key that an earlier branch takes. After a lone
  backslash the decoder waits; a second lone backslash is not Return, yet nothing is
  broadcast for it and the first timer stays pending next to the new one. And an Alt
  character after a lone backslash is broadcast at once, before the backslash, which
  follows only when its timer fires.
\<close>

theorem second_backslash_not_flushed:
  "map_option waitingForEnterRef
     (run (sampleEnv False) (initialDecoder False) [Keypress (rawKey BACKSLASH)]) = Some True \<and>
   name (rawKey BACKSLASH) \<noteq> ''return'' \<and>
   map_option broadcast
     (run (sampleEnv False) (initialDecoder False)
        [Keypress (rawKey BACKSLASH), Keypress (rawKey BACKSLASH)]) = Some [] \<and>
   map_option timers
     (run (sampleEnv False) (initialDecoder False)
        [Keypress (rawKey BACKSLASH), Keypress (rawKey BACKSLASH)])
     = Some [(BackslashTimeout (rawKey BACKSLASH), True), (BackslashTimeout (rawKey BACKSLASH), True)] \<and>
   map_option broadcast
     (run (sampleEnv False) (initialDecoder False)
        [Keypress (rawKey BACKSLASH), Keypress (rawKey (ESC @ ''b''))])
     = Some [(rawKey (ESC @ ''b''))\<lparr>name := ''b'', meta := True\<rparr>] \<and>
   map_option broadcast
     (run (sampleEnv False) (initialDecoder False)
        [Keypress (rawKey BACKSLASH), Keypress (rawKey (ESC @ ''b'')), TimerFires 0])
     = Some [(rawKey (ESC @ ''b''))\<lparr>name := ''b'', meta := True\<rparr>, rawKey BACKSLASH]"
  by code_simp
section \<open>A key during paste capture, and a key the extended protocol passes by\<close>

lemma handleKeypress_capturing:
  assumes "isPasteRef s"
    and "\<not> fst (isFocusEvent h (sequence k))" and "\<not> snd (isFocusEvent h (sequence k))"
    and "\<not> fst (isPasteModeBoundary h (sequence k))"
    and "\<not> snd (isPasteModeBoundary h (sequence k))"
  shows "handleKeypress h s k =
     Some (if usePassthrough h then s
           else appendToPasteBuffer (sequence k) (s\<lparr>pasteBufferRef := pasteBufferRef s @ sequence k\<rparr>))"
proof -
  have f: "(fst (isFocusEvent h (sequence k)) \<or> snd (isFocusEvent h (sequence k))) = False"
    using assms by simp
  show ?thesis
    unfolding handleKeypress_def Let_def
    by (simp only: f assms if_False if_True) simp
qed

lemma handleKitty_not_taken:
  assumes "\<not> (isKittyEnabled s \<and> prefix ESC (sequence k))"
  shows "handleKitty h s k = Some (broadcastParsedKey s k)"
proof -
  have c: "(isKittyEnabled s \<and> prefix ESC (sequence k)) = False"
    using assms by simp
  show ?thesis
    unfolding handleKitty_def Let_def by (simp only: c if_False)
qed

lemma plainKey_sample_ctrlC: "plainKey (sampleEnv p) ctrlC"
  by (simp add: plainKey_def sampleEnv_def ctrlC_def createSpecialKey_def char_defs sampleAlt_def)
section \<open>Capturing a paste\<close>

lemma run_append:
  "run h s (xs @ ys) = (case run h s xs of None \<Rightarrow> None | Some s1 \<Rightarrow> run h s1 ys)"
  by (induction xs arbitrary: s) (auto split: option.splits)

lemma normalizedBuffer_no_CR: "CR \<notin> set (normalizedBuffer b)"
  by (auto simp: normalizedBuffer_def replaceCR_def CR_def LF_def)

lemma capture_keys:
  assumes "\<not> usePassthrough h" and "isPasteRef s" and "list_all (pasteContent h) cs"
  shows "\<exists>s1. run h s (map Keypress cs) = Some s1 \<and> isPasteRef s1 \<and>
           pasteBufferRef s1 = pasteBufferRef s @ concat (map sequence cs) \<and>
           broadcast s1 = broadcast s"
  using assms(2,3)
proof (induction cs arbitrary: s)
  case Nil
  then show ?case by simp
next
  case (Cons c cs)
  let ?s1 = "appendToPasteBuffer (sequence c) (s\<lparr>pasteBufferRef := pasteBufferRef s @ sequence c\<rparr>)"
  have 1: "handleKeypress h s c = Some ?s1"
    using Cons.prems assms(1) by (simp add: handleKeypress_capturing pasteContent_def)
  have 2: "isPasteRef ?s1" "pasteBufferRef ?s1 = pasteBufferRef s @ sequence c"
    "broadcast ?s1 = broadcast s"
    using Cons.prems by (simp_all add: appendToPasteBuffer_def)
  from Cons.IH [of ?s1] Cons.prems 2 obtain s2 where
    "run h ?s1 (map Keypress cs) = Some s2" "isPasteRef s2"
    "pasteBufferRef s2 = pasteBufferRef ?s1 @ concat (map sequence cs)"
    "broadcast s2 = broadcast ?s1"
    by auto
  then show ?case
    using 1 2 by (simp add: step_def)
qed

lemma handleKeypress_paste_start:
  assumes "\<not> fst (isFocusEvent h (sequence k))" and "\<not> snd (isFocusEvent h (sequence k))"
    and "fst (isPasteModeBoundary h (sequence k))"
  shows "handleKeypress h s k = Some (setPasteMode True (s\<lparr>isPasteRef := True, pasteBufferRef := []\<rparr>))"
proof -
  have f: "(fst (isFocusEvent h (sequence k)) \<or> snd (isFocusEvent h (sequence k))) = False"
    using assms by simp
  show ?thesis
    unfolding handleKeypress_def Let_def
    by (simp only: f assms if_False if_True simp_thms)
qed

lemma handleKeypress_paste_end:
  assumes "\<not> fst (isFocusEvent h (sequence k))" and "\<not> snd (isFocusEvent h (sequence k))"
    and "\<not> fst (isPasteModeBoundary h (sequence k))"
    and "snd (isPasteModeBoundary h (sequence k))"
  shows "handleKeypress h s k = Some (completePaste s)"
proof -
  have f: "(fst (isFocusEvent h (sequence k)) \<or> snd (isFocusEvent h (sequence k))) = False"
    using assms by simp
  show ?thesis
    unfolding handleKeypress_def Let_def
    by (simp only: f assms if_False if_True simp_thms)
qed

lemma pasteContent_sample:
  "pasteContent (sampleEnv p) (rawKey sq) =
     (sq \<noteq> ESC @ ''[I'' \<and> sq \<noteq> ESC @ ''[O'' \<and> sq \<noteq> PASTE_MODE_PREFIX \<and> sq \<noteq> PASTE_MODE_SUFFIX)"
  by (simp add: pasteContent_def sampleEnv_def rawKey_def createSpecialKey_def)

section \<open>Where a marker is found\<close>

lemma indexOf_None_iff:
  "indexOf hay m from = None \<longleftrightarrow> (\<forall>j. from \<le> j \<and> j \<le> length hay \<longrightarrow> \<not> prefix m (drop j hay))"
  unfolding indexOf_def find_None_iff by auto

lemma indexOf_Some_iff:
  "indexOf hay m from = Some n \<longleftrightarrow>
     from \<le> n \<and> n \<le> length hay \<and> prefix m (drop n hay) \<and>
     (\<forall>j. from \<le> j \<and> j < n \<longrightarrow> \<not> prefix m (drop j hay))"
proof
  let ?xs = "[from ..< Suc (length hay)]"
  assume "indexOf hay m from = Some n"
  then obtain i where i: "i < length ?xs" "prefix m (drop (?xs ! i) hay)" "n = ?xs ! i"
      "\<forall>j<i. \<not> prefix m (drop (?xs ! j) hay)"
    unfolding indexOf_def find_Some_iff by blast
  from i(1) have b: "from + i < Suc (length hay)" by (simp del: upt_Suc)
  then have "?xs ! i = from + i" by (rule nth_upt)
  with i(3) have n: "n = from + i" by simp
  from i(2) have pn: "prefix m (drop n hay)" by (simp only: i(3))
  have "\<not> prefix m (drop j hay)" if "from \<le> j" "j < n" for j
  proof -
    from that n have "j - from < i" by simp
    with i(4) have "\<not> prefix m (drop (?xs ! (j - from)) hay)" by blast
    moreover have "from + (j - from) < Suc (length hay)" using that n b by auto
    then have "?xs ! (j - from) = from + (j - from)" by (rule nth_upt)
    with that have "?xs ! (j - from) = j" by simp
    ultimately show ?thesis by simp
  qed
  with pn n b show "from \<le> n \<and> n \<le> length hay \<and> prefix m (drop n hay) \<and>
     (\<forall>j. from \<le> j \<and> j < n \<longrightarrow> \<not> prefix m (drop j hay))"
    by simp
next
  let ?xs = "[from ..< Suc (length hay)]"
  assume a: "from \<le> n \<and> n \<le> length hay \<and> prefix m (drop n hay) \<and>
     (\<forall>j. from \<le> j \<and> j < n \<longrightarrow> \<not> prefix m (drop j hay))"
  let ?i = "n - from"
  have 1: "?i < length ?xs" using a by (auto simp del: upt_Suc)
  have "from + ?i < Suc (length hay)" using a by auto
  then have "?xs ! ?i = from + ?i" by (rule nth_upt)
  with a have 2: "?xs ! ?i = n" by simp
  have 3: "\<forall>j < ?i. \<not> prefix m (drop (?xs ! j) hay)"
  proof (intro allI impI)
    fix j assume j: "j < ?i"
    with a have "from + j < Suc (length hay)" by auto
    then have "?xs ! j = from + j" by (rule nth_upt)
    moreover have "from \<le> from + j \<and> from + j < n" using j by simp
    ultimately show "\<not> prefix m (drop (?xs ! j) hay)" using a by simp
  qed
  have "prefix m (drop (?xs ! ?i) hay)" using a by (simp only: 2)
  with 1 2 3 have "\<exists>i<length ?xs. prefix m (drop (?xs ! i) hay) \<and> n = ?xs ! i \<and>
      (\<forall>j<i. \<not> prefix m (drop (?xs ! j) hay))"
    by (intro exI [of _ ?i]) simp
  then show "indexOf hay m from = Some n"
    unfolding indexOf_def find_Some_iff .
qed

lemma marker_length [simp]: "length PASTE_MODE_PREFIX = 6" "length PASTE_MODE_SUFFIX = 6"
  by (simp_all add: char_defs)

lemma marker_tail: "CHR 0x1B \<notin> set (tl PASTE_MODE_PREFIX)" "CHR 0x1B \<notin> set (tl PASTE_MODE_SUFFIX)"
  by (simp_all add: char_defs)

lemma no_overlap:
  assumes m: "m = PASTE_MODE_PREFIX \<or> m = PASTE_MODE_SUFFIX"
    and p: "prefix m (a @ PASTE_MODE_SUFFIX)" and a: "a \<noteq> []"
  shows "prefix m a"
proof -
  from p consider "prefix m a" | us where "m = a @ us" "prefix us PASTE_MODE_SUFFIX"
    by (auto simp: prefix_append)
  then show ?thesis
  proof cases
    case 1
    then show ?thesis .
  next
    case 2
    show ?thesis
    proof (cases "us = []")
      case True
      with 2 show ?thesis by simp
    next
      case False
      then obtain u us' where us: "us = u # us'" by (cases us) auto
      with 2(2) have u: "u = CHR 0x1B"
        by (simp add: char_defs prefix_Cons)
      obtain x a' where "a = x # a'" using a by (cases a) auto
      with 2(1) us have "tl m = a' @ u # us'" by simp
      then have "u \<in> set (tl m)" by simp
      with u m marker_tail show ?thesis by auto
    qed
  qed
qed

lemma markerFree_drop:
  assumes "markerFree c" and "m = PASTE_MODE_PREFIX \<or> m = PASTE_MODE_SUFFIX"
  shows "\<not> prefix m (drop j c)"
proof (cases "j \<le> length c")
  case True
  with assms show ?thesis
    by (auto simp: markerFree_def indexOf_None_iff)
next
  case False
  then have "drop j c = []" by simp
  moreover have "m \<noteq> []" using assms(2) by (auto simp: char_defs)
  ultimately show ?thesis by simp
qed

lemma markerFree_before_suffix:
  assumes "markerFree c" and "m = PASTE_MODE_PREFIX \<or> m = PASTE_MODE_SUFFIX" and "j < length c"
  shows "\<not> prefix m (drop j (c @ PASTE_MODE_SUFFIX))"
proof
  assume "prefix m (drop j (c @ PASTE_MODE_SUFFIX))"
  with assms(3) have "prefix m (drop j c @ PASTE_MODE_SUFFIX)" by simp
  moreover have "drop j c \<noteq> []" using assms(3) by simp
  ultimately have "prefix m (drop j c)" by (rule no_overlap [OF assms(2)])
  with markerFree_drop [OF assms(1,2)] show False by blast
qed

lemma indexOf_suffix_end:
  assumes "markerFree c"
  shows "indexOf (c @ PASTE_MODE_SUFFIX) PASTE_MODE_SUFFIX 0 = Some (length c)"
proof -
  have "\<forall>j. 0 \<le> j \<and> j < length c \<longrightarrow> \<not> prefix PASTE_MODE_SUFFIX (drop j (c @ PASTE_MODE_SUFFIX))"
    using markerFree_before_suffix [OF assms, of PASTE_MODE_SUFFIX] by blast
  then show ?thesis
    unfolding indexOf_Some_iff by simp
qed

lemma prefix_of_suffix_marker:
  "\<not> prefix PASTE_MODE_PREFIX (drop k PASTE_MODE_SUFFIX)"
proof
  assume p: "prefix PASTE_MODE_PREFIX (drop k PASTE_MODE_SUFFIX)"
  then have "length PASTE_MODE_PREFIX \<le> length (drop k PASTE_MODE_SUFFIX)"
    by (rule prefix_length_le)
  then have "k = 0" by simp
  with p show False by (simp add: char_defs)
qed

lemma indexOf_prefix_none:
  assumes "markerFree c"
  shows "indexOf (c @ PASTE_MODE_SUFFIX) PASTE_MODE_PREFIX 0 = None"
  unfolding indexOf_None_iff
proof (intro allI impI)
  fix j assume "0 \<le> j \<and> j \<le> length (c @ PASTE_MODE_SUFFIX)"
  show "\<not> prefix PASTE_MODE_PREFIX (drop j (c @ PASTE_MODE_SUFFIX))"
  proof (cases "j < length c")
    case True
    then show ?thesis
      using markerFree_before_suffix [OF assms, of PASTE_MODE_PREFIX j] by simp
  next
    case False
    then show ?thesis by (simp add: prefix_of_suffix_marker)
  qed
qed

lemma nextMarker_end:
  "markerFree c \<Longrightarrow> nextMarker (c @ PASTE_MODE_SUFFIX) 0 = Some (length c, False)"
  by (simp add: nextMarker_def indexOf_suffix_end indexOf_prefix_none)

lemma indexOf_shift:
  "indexOf (pre @ x) m (length pre + p) = map_option (\<lambda>i. length pre + i) (indexOf x m p)"
proof (cases "indexOf x m p")
  case None
  then have n: "\<forall>j. p \<le> j \<and> j \<le> length x \<longrightarrow> \<not> prefix m (drop j x)"
    by (simp add: indexOf_None_iff)
  have "\<forall>j. length pre + p \<le> j \<and> j \<le> length (pre @ x) \<longrightarrow> \<not> prefix m (drop j (pre @ x))"
  proof (intro allI impI)
    fix j assume j: "length pre + p \<le> j \<and> j \<le> length (pre @ x)"
    then have "p \<le> j - length pre \<and> j - length pre \<le> length x" by auto
    with n have "\<not> prefix m (drop (j - length pre) x)" by blast
    with j show "\<not> prefix m (drop j (pre @ x))" by simp
  qed
  then have "indexOf (pre @ x) m (length pre + p) = None"
    by (simp only: indexOf_None_iff)
  with None show ?thesis by simp
next
  case (Some n)
  then have n: "p \<le> n" "n \<le> length x" "prefix m (drop n x)"
    "\<forall>j. p \<le> j \<and> j < n \<longrightarrow> \<not> prefix m (drop j x)"
    by (simp_all add: indexOf_Some_iff)
  have "\<not> prefix m (drop j (pre @ x))" if "length pre + p \<le> j" "j < length pre + n" for j
  proof -
    from that have "p \<le> j - length pre \<and> j - length pre < n" by auto
    with n(4) have "\<not> prefix m (drop (j - length pre) x)" by blast
    with that show ?thesis by simp
  qed
  with n have "indexOf (pre @ x) m (length pre + p) = Some (length pre + n)"
    unfolding indexOf_Some_iff by simp
  with Some show ?thesis by simp
qed

lemma nextMarker_shift:
  "nextMarker (pre @ x) (length pre + p) =
     map_option (\<lambda>(n, b). (length pre + n, b)) (nextMarker x p)"
  unfolding nextMarker_def Let_def indexOf_shift
  by (cases "indexOf x PASTE_MODE_PREFIX p"; cases "indexOf x PASTE_MODE_SUFFIX p") simp_all

lemma nextMarker_start: "nextMarker (PASTE_MODE_PREFIX @ r) 0 = Some (0, True)"
proof -
  have 1: "indexOf (PASTE_MODE_PREFIX @ r) PASTE_MODE_PREFIX 0 = Some 0"
    unfolding indexOf_Some_iff by simp
  have "\<not> prefix PASTE_MODE_SUFFIX (PASTE_MODE_PREFIX @ r)"
    by (simp add: char_defs)
  then have 2: "indexOf (PASTE_MODE_PREFIX @ r) PASTE_MODE_SUFFIX 0 \<noteq> Some 0"
    unfolding indexOf_Some_iff by simp
  show ?thesis
    using 1 2 by (cases "indexOf (PASTE_MODE_PREFIX @ r) PASTE_MODE_SUFFIX 0")
      (auto simp: nextMarker_def Let_def)
qed

text \<open>
  A text that holds no paste marker holds none in any of its parts: content cut into
  chunks stays free of markers chunk by chunk.
\<close>

lemma markerFree_append:
  assumes "markerFree (a @ b)"
  shows "markerFree a" and "markerFree b"
proof -
  have n: "\<not> prefix m (drop j (a @ b))"
    if "m = PASTE_MODE_PREFIX \<or> m = PASTE_MODE_SUFFIX" for m j
    using markerFree_drop [OF assms that] .
  have a: "\<not> prefix m (drop j a)"
    if m: "m = PASTE_MODE_PREFIX \<or> m = PASTE_MODE_SUFFIX" and j: "j \<le> length a" for m j
  proof
    assume "prefix m (drop j a)"
    then have "prefix m (drop j a @ b)" by (rule prefix_prefix)
    with j have "prefix m (drop j (a @ b))" by simp
    with n [OF m] show False by blast
  qed
  have b: "\<not> prefix m (drop j b)"
    if m: "m = PASTE_MODE_PREFIX \<or> m = PASTE_MODE_SUFFIX" for m j
    using n [OF m, of "length a + j"] by simp
  show "markerFree a"
    unfolding markerFree_def indexOf_None_iff using a by blast
  show "markerFree b"
    unfolding markerFree_def indexOf_None_iff using b by blast
qed

section \<open>The capture flags under each handler\<close>

lemma handleKitty_refs:
  assumes "handleKitty h s k = Some s'"
  shows "isPasteRef s' = isPasteRef s \<and> isDraggingRef s' = isDraggingRef s"
  using assms unfolding handleKitty_def Let_def
  by (auto simp: atom_defs broadcastParsedKey_def split: if_splits prod.splits option.splits)

lemma completePaste_refs:
  "isDraggingRef (completePaste s) = isDraggingRef s"
  "isPasteRef (completePaste s) \<Longrightarrow> isPasteRef s"
  by (auto simp: completePaste_def Let_def atom_defs split: if_splits)

lemma clearDragTimer_refs [simp]:
  "isPasteRef (clearDragTimer s) = isPasteRef s"
  "isDraggingRef (clearDragTimer s) = isDraggingRef s"
  "broadcast (clearDragTimer s) = broadcast s"
  by (simp_all add: clearDragTimer_def clearTimeout_def split: option.splits)

lemma clearTimeout_refs [simp]:
  "isPasteRef (clearTimeout t s) = isPasteRef s"
  "isDraggingRef (clearTimeout t s) = isDraggingRef s"
  "broadcast (clearTimeout t s) = broadcast s"
  "dragBufferAtom (clearTimeout t s) = dragBufferAtom s"
  by (simp_all add: clearTimeout_def)

lemma completeDrag_refs:
  "isPasteRef (completeDrag d s) = isPasteRef s"
  "isDraggingRef (completeDrag d s) \<Longrightarrow> isDraggingRef s"
  by (auto simp: completeDrag_def Let_def atom_defs split: if_splits)

lemma continueDrag_refs [simp]:
  "isPasteRef (continueDrag s k) = isPasteRef s"
  "isDraggingRef (continueDrag s k)"
  by (simp_all add: continueDrag_def Let_def setTimeout_def atom_defs split: prod.splits)

lemma fireTimer_exclusive: "exclusive s \<Longrightarrow> exclusive (fireTimer t s)"
  unfolding exclusive_def fireTimer_def
  by (auto simp: atom_defs Let_def split: option.splits timer_action.splits dest: completeDrag_refs(2)
      simp: completeDrag_refs(1))

lemma handleKeypress_exclusive:
  assumes "exclusive s" and "\<not> pasteStartsInDrag h s (Keypress k)"
    and "handleKeypress h s k = Some s'"
  shows "exclusive s'"
proof -
  let ?sq = "sequence k"
  consider (focus) "fst (isFocusEvent h ?sq) \<or> snd (isFocusEvent h ?sq)"
    | (start) "\<not> fst (isFocusEvent h ?sq)" "\<not> snd (isFocusEvent h ?sq)"
        "fst (isPasteModeBoundary h ?sq)"
    | (finish) "\<not> fst (isFocusEvent h ?sq)" "\<not> snd (isFocusEvent h ?sq)"
        "\<not> fst (isPasteModeBoundary h ?sq)" "snd (isPasteModeBoundary h ?sq)"
    | (capture) "\<not> fst (isFocusEvent h ?sq)" "\<not> snd (isFocusEvent h ?sq)"
        "\<not> fst (isPasteModeBoundary h ?sq)" "\<not> snd (isPasteModeBoundary h ?sq)" "isPasteRef s"
    | (drag) "\<not> fst (isFocusEvent h ?sq)" "\<not> snd (isFocusEvent h ?sq)"
        "\<not> fst (isPasteModeBoundary h ?sq)" "\<not> snd (isPasteModeBoundary h ?sq)" "\<not> isPasteRef s"
        "isDragStart h ?sq \<or> isDraggingRef s"
    | (alt) "\<not> fst (isFocusEvent h ?sq)" "\<not> snd (isFocusEvent h ?sq)"
        "\<not> fst (isPasteModeBoundary h ?sq)" "\<not> snd (isPasteModeBoundary h ?sq)" "\<not> isPasteRef s"
        "\<not> (isDragStart h ?sq \<or> isDraggingRef s)"
        "mapAltKeyCharacter h ?sq \<noteq> None \<and> mapAltKeyCharacter h ?sq \<noteq> Some [] \<and> \<not> meta k"
    | (plain) "idle s" "plainKey h k"
    unfolding idle_def plainKey_def Let_def by argo
  then show ?thesis
  proof cases
    case focus
    then have "handleKeypress h s k = Some s"
      unfolding handleKeypress_def Let_def by (simp only: if_True)
    with assms show ?thesis by simp
  next
    case start
    then have "\<not> isDraggingRef s"
      using assms(2) by (simp add: pasteStartsInDrag_def)
    moreover have "handleKeypress h s k =
        Some (setPasteMode True (s\<lparr>isPasteRef := True, pasteBufferRef := []\<rparr>))"
      using start by (rule handleKeypress_paste_start)
    ultimately show ?thesis
      using assms(3) by (auto simp: exclusive_def setPasteMode_def)
  next
    case finish
    then have "handleKeypress h s k = Some (completePaste s)"
      by (rule handleKeypress_paste_end)
    then show ?thesis
      using assms(1,3) by (auto simp: exclusive_def completePaste_refs)
  next
    case capture
    then show ?thesis
      using assms(1,3) by (auto simp: handleKeypress_capturing exclusive_def appendToPasteBuffer_def
          split: if_splits)
  next
    case drag
    have f: "(fst (isFocusEvent h ?sq) \<or> snd (isFocusEvent h ?sq)) = False"
      using drag by simp
    have "handleKeypress h s k = Some (continueDrag s k)"
      unfolding handleKeypress_def Let_def
      by (simp only: f drag if_False if_True simp_thms)
    then show ?thesis
      using assms(3) drag by (auto simp: exclusive_def)
  next
    case alt
    have f: "(fst (isFocusEvent h ?sq) \<or> snd (isFocusEvent h ?sq)) = False"
      using alt by simp
    have "handleKeypress h s k =
        Some (broadcastKey (k\<lparr>name := the (mapAltKeyCharacter h ?sq), meta := True\<rparr>) s)"
      unfolding handleKeypress_def Let_def
      by (simp only: f alt if_False if_True simp_thms)
    then show ?thesis
      using assms(1,3) by (auto simp: exclusive_def broadcastKey_def)
  next
    case plain
    then have "isPasteRef s' = isPasteRef s \<and> isDraggingRef s' = isDraggingRef s"
      using assms(3)
      by (auto simp: handleKeypress_plain broadcastKey_def
               split: if_splits dest: handleKitty_refs)
    then show ?thesis
      using assms(1) by (simp add: exclusive_def)
  qed
qed


lemma indexOf_None_from:
  assumes "indexOf hay needle 0 = None"
  shows "indexOf hay needle from = None"
proof -
  have "\<forall>i \<in> set [0 ..< Suc (length hay)]. \<not> prefix needle (drop i hay)"
    using assms unfolding indexOf_def find_None_iff by blast
  then have "\<forall>i \<in> set [from ..< Suc (length hay)]. \<not> prefix needle (drop i hay)"
    by auto
  then show ?thesis
    unfolding indexOf_def find_None_iff by blast
qed

lemma routeChunk_refs [simp]:
  "isPasteRef (routeChunk b c s) = isPasteRef s"
  "isDraggingRef (routeChunk b c s) = isDraggingRef s"
  by (simp_all add: routeChunk_def appendToPasteBuffer_def)


lemma rawLoop_done: "\<not> pos < length d \<Longrightarrow> rawLoop s data d pos = s"
  by (subst rawLoop.simps) simp

lemma rawLoop_rest:
  "pos < length d \<Longrightarrow> nextMarker d pos = None \<Longrightarrow>
   rawLoop s data d pos = routeChunk (slice data pos (length data)) (slice d pos (length d)) s"
  by (subst rawLoop.simps) simp

lemma rawLoop_start:
  "pos < length d \<Longrightarrow> nextMarker d pos = Some (n, True) \<Longrightarrow>
   rawLoop s data d pos =
     rawLoop (setPasteMode True ((beforeMarker s data d pos n)\<lparr>isPasteRef := True, pasteBufferRef := []\<rparr>))
       data d (n + length PASTE_MODE_PREFIX)"
  by (subst rawLoop.simps) simp

lemma rawLoop_finish:
  "pos < length d \<Longrightarrow> nextMarker d pos = Some (n, False) \<Longrightarrow>
   rawLoop s data d pos =
     rawLoop (completePaste (beforeMarker s data d pos n)) data d (n + length PASTE_MODE_SUFFIX)"
  by (subst rawLoop.simps) simp

lemma beforeMarker_refs [simp]:
  "isPasteRef (beforeMarker s data d pos n) = isPasteRef s"
  "isDraggingRef (beforeMarker s data d pos n) = isDraggingRef s"
  by (simp_all add: beforeMarker_def)

lemma rawLoop_dragging: "isDraggingRef (rawLoop s data d pos) = isDraggingRef s"
proof (induction s data d pos rule: rawLoop.induct)
  case (1 s data d pos)
  show ?case
  proof (cases "pos < length d")
    case False
    then show ?thesis by (simp add: rawLoop_done)
  next
    case True
    show ?thesis
    proof (cases "nextMarker d pos")
      case None
      with True show ?thesis by (simp add: rawLoop_rest)
    next
      case (Some m)
      obtain n b where m: "m = (n, b)" by (cases m)
      show ?thesis
      proof (cases b)
        case True
        with \<open>pos < length d\<close> Some m
        have "isDraggingRef (rawLoop s data d pos) =
            isDraggingRef (setPasteMode True ((beforeMarker s data d pos n)\<lparr>isPasteRef := True, pasteBufferRef := []\<rparr>))"
          using "1.IH"(1) [of m n b] by (simp add: rawLoop_start)
        then show ?thesis by (simp add: setPasteMode_def)
      next
        case False
        with \<open>pos < length d\<close> Some m
        have "isDraggingRef (rawLoop s data d pos) = isDraggingRef (completePaste (beforeMarker s data d pos n))"
          using "1.IH"(2) [of m n b] by (simp add: rawLoop_finish)
        then show ?thesis by (simp add: completePaste_refs)
      qed
    qed
  qed
qed


lemma nextMarker_no_prefix:
  assumes "indexOf d PASTE_MODE_PREFIX 0 = None"
  shows "nextMarker d pos \<noteq> Some (n, True)"
  using indexOf_None_from [OF assms, of pos] by (auto simp: nextMarker_def Let_def)

lemma rawLoop_no_prefix:
  "indexOf d PASTE_MODE_PREFIX 0 = None \<Longrightarrow> isPasteRef (rawLoop s data d pos) \<Longrightarrow> isPasteRef s"
proof (induction s data d pos rule: rawLoop.induct)
  case (1 s data d pos)
  show ?case
  proof (cases "pos < length d")
    case False
    with "1.prems" show ?thesis by (simp add: rawLoop_done)
  next
    case True
    show ?thesis
    proof (cases "nextMarker d pos")
      case None
      with True "1.prems" show ?thesis by (simp add: rawLoop_rest)
    next
      case (Some m)
      obtain n b where m: "m = (n, b)" by (cases m)
      have b: "\<not> b"
        using Some m nextMarker_no_prefix [OF "1.prems"(1), of pos n] by auto
      with True Some m "1.prems"
      have "isPasteRef (rawLoop (completePaste (beforeMarker s data d pos n)) data d (n + length PASTE_MODE_SUFFIX))"
        by (simp add: rawLoop_finish)
      with "1.IH"(2) [of m n b] True Some m b "1.prems"(1)
      have "isPasteRef (completePaste (beforeMarker s data d pos n))"
        by simp
      then show ?thesis
        by (auto dest: completePaste_refs(2))
    qed
  qed
qed

lemma cleanup_refs:
  "isPasteRef (cleanup s) \<Longrightarrow> isPasteRef s"
  "isDraggingRef (cleanup s) \<Longrightarrow> isDraggingRef s"
  by (auto simp: cleanup_def clearBuffers_def completeDrag_refs
           dest!: completeDrag_refs(2) completePaste_refs(2) simp: completePaste_refs(1))

lemma render_exclusive: "exclusive s \<Longrightarrow> exclusive (render s)"
  unfolding exclusive_def render_def Let_def by (auto dest: cleanup_refs)

lemma handleRawData_exclusive:
  assumes "exclusive s" and "\<not> pasteStartsInDrag h s (RawData d)"
  shows "exclusive (handleRawData h s d)"
proof (cases "usePassthrough h \<and> isDraggingRef s")
  case True
  then have "indexOf (toString h d) PASTE_MODE_PREFIX 0 = None"
    using assms(2) by (simp add: pasteStartsInDrag_def)
  then have "isPasteRef (handleRawData h s d) \<Longrightarrow> isPasteRef s"
    using True by (auto simp: handleRawData_def dest: rawLoop_no_prefix)
  then show ?thesis
    using assms(1) True by (auto simp: exclusive_def)
next
  case False
  then show ?thesis
    using assms(1) by (auto simp: exclusive_def handleRawData_def rawLoop_dragging)
qed

lemma step_exclusive:
  assumes "exclusive s" and "\<not> pasteStartsInDrag h s i" and "step h s i = Some s'"
  shows "exclusive s'"
proof (cases i)
  case (Keypress k)
  with assms show ?thesis
    by (auto simp: step_def intro: handleKeypress_exclusive)
next
  case (RawData d)
  with assms show ?thesis
    by (auto simp: step_def intro: handleRawData_exclusive)
next
  case (TimerFires t)
  with assms show ?thesis
    by (auto simp: step_def intro: fireTimer_exclusive)
next
  case Render
  with assms show ?thesis
    by (auto simp: step_def intro: render_exclusive)
qed

section \<open>Paste and drag are exclusive unless a paste starts during a drag\<close>

text \<open>
  Claim C4, as amended. In every decoder state reached from the initial state by
  keypresses, raw data, timers firing and renders of the provider, at most one of
  \<^verbatim>\<open>isPasteRef\<close> and \<^verbatim>\<open>isDraggingRef\<close> is set, provided no paste start arrives while
  a drag is captured.
\<close>

theorem paste_and_drag_exclusive:
  assumes "avoidsPasteInDrag h (initialDecoder kitty) is"
    and "run h (initialDecoder kitty) is = Some s"
  shows "\<not> (isPasteRef s \<and> isDraggingRef s)"
proof -
  have "exclusive s0 \<Longrightarrow> avoidsPasteInDrag h s0 is \<Longrightarrow> run h s0 is = Some s \<Longrightarrow> exclusive s" for s0
  proof (induction "is" arbitrary: s0)
    case Nil
    then show ?case by simp
  next
    case (Cons i "is")
    from Cons.prems(3) obtain s1 where s1: "step h s0 i = Some s1" "run h s1 is = Some s"
      by (auto split: option.splits)
    from Cons.prems(1,2) s1(1) have "exclusive s1"
      by (auto intro: step_exclusive)
    moreover from Cons.prems(2) s1(1) have "avoidsPasteInDrag h s1 is"
      by simp
    ultimately show ?case
      using Cons.IH s1(2) by blast
  qed
  moreover have "exclusive (initialDecoder kitty)"
    by (simp add: exclusive_def initialDecoder_def)
  ultimately show ?thesis
    using assms by (simp add: exclusive_def)
qed

theorem paste_and_drag_exclusive_witness:
  "avoidsPasteInDrag (sampleEnv False) (initialDecoder False)
     [Keypress (rawKey [CHR 0x27]), TimerFires 0, Render, Render,
      Keypress (rawKey PASTE_MODE_PREFIX),
      Keypress (rawKey ''a'')] \<and>
   (\<exists>s. run (sampleEnv False) (initialDecoder False)
          [Keypress (rawKey [CHR 0x27]), TimerFires 0, Render, Render,
      Keypress (rawKey PASTE_MODE_PREFIX),
           Keypress (rawKey ''a'')] = Some s \<and>
        isPasteRef s \<and> \<not> (isPasteRef s \<and> isDraggingRef s))"
proof -
  let ?is = "[Keypress (rawKey [CHR 0x27]), TimerFires 0, Render, Render,
      Keypress (rawKey PASTE_MODE_PREFIX),
      Keypress (rawKey ''a'')]"
  have a: "avoidsPasteInDrag (sampleEnv False) (initialDecoder False) ?is"
    by code_simp
  have "map_option isPasteRef (run (sampleEnv False) (initialDecoder False) ?is) = Some True"
    by code_simp
  then obtain s where s: "run (sampleEnv False) (initialDecoder False) ?is = Some s" "isPasteRef s"
    by (cases "run (sampleEnv False) (initialDecoder False) ?is") auto
  from paste_and_drag_exclusive [OF a s(1)] a s show ?thesis
    by blast
qed

text \<open>
  The claim as stated fails: a paste start marker that arrives during a drag sets the
  paste flag and leaves the drag flag set.
\<close>

theorem paste_start_during_drag:
  "map_option isPasteRef
     (run (sampleEnv False) (initialDecoder False)
        [Keypress (rawKey [CHR 0x27]), Keypress (rawKey PASTE_MODE_PREFIX)]) = Some True \<and>
   map_option isDraggingRef
     (run (sampleEnv False) (initialDecoder False)
        [Keypress (rawKey [CHR 0x27]), Keypress (rawKey PASTE_MODE_PREFIX)]) = Some True"
  by code_simp

section \<open>What the cleanup and a render broadcast\<close>

lemma cleanup_broadcast:
  "broadcast (cleanup s) =
     broadcast s @
     (if isPasteRef s \<and> pasteBufferRef s \<noteq> []
      then [createPasteKey (normalizedBuffer (pasteBufferRef s))] else []) @
     (if isDraggingRef s \<and> dragBuffer s \<noteq> [] then [createPasteKey (dragBuffer s)] else [])"
  by (simp add: cleanup_def completeDrag_def completePaste_def Let_def atom_defs
        clearDragTimer_def clearBackslashTimer_def clearTimeout_def split: option.splits)

lemma render_broadcast:
  "\<exists>es. broadcast (render s) = broadcast s @ es \<and> list_all (\<lambda>e. paste e \<and> \<not> ctrl e) es"
proof (cases "render s = s")
  case True
  then show ?thesis by simp
next
  case False
  then have "broadcast (render s) = broadcast (cleanup s)"
    by (auto simp: render_def Let_def)
  then show ?thesis
    by (simp add: cleanup_broadcast createPasteKey_def)
qed

lemma nextMarker_markerFree: "markerFree c \<Longrightarrow> nextMarker c pos = None"
  by (simp add: markerFree_def nextMarker_def Let_def indexOf_None_from)

lemma handleRawData_capturing:
  assumes "usePassthrough h" and "isPasteRef s" and "markerFree (toString h d)"
  shows "handleRawData h s d =
     (if toString h d = [] then s
      else appendToPasteBuffer (toString h d) (s\<lparr>pasteBufferRef := pasteBufferRef s @ toString h d\<rparr>))"
proof (cases "toString h d = []")
  case True
  with assms show ?thesis by (simp add: handleRawData_def rawLoop_done)
next
  case False
  then have "rawLoop s d (toString h d) 0 =
      routeChunk (slice d 0 (length d)) (slice (toString h d) 0 (length (toString h d))) s"
    using assms(3) by (intro rawLoop_rest nextMarker_markerFree) simp_all
  with assms False show ?thesis
    by (simp add: handleRawData_def routeChunk_def slice_def)
qed

section \<open>Ctrl+C\<close>

text \<open>
  Claim C3, as amended. While a paste is captured, Ctrl+C is pasted content. A Ctrl+C
  key that is neither a focus report nor a paste boundary is captured like any other
  key: when the handler returns, nothing has been broadcast, the decoder is still in
  paste capture, the drag and extended-sequence buffers are as they were, and (unless
  raw data is intercepted) the key's sequence has been appended to the paste buffer.
  When raw data is intercepted, a chunk whose text is the key's sequence goes to the
  raw-data handler, which appends it to the paste buffer and broadcasts and writes
  nothing. Whatever a render of the provider broadcasts after that is a paste event
  without \<^verbatim>\<open>ctrl\<close>: the Ctrl+C key event is not broadcast by it either.

  When the decoder is idle, a plain Ctrl+C key that does not start with \<^verbatim>\<open>ESC\<close> clears
  the paste, drag and extended-sequence buffers and is then broadcast as it is, after
  the pending backslash if there is one; no paste event is broadcast and the decoder
  captures nothing and waits for nothing.
\<close>

theorem ctrl_c_capture_and_clear:
  assumes "ctrl k" and "name k = ''c''"
  shows "(isPasteRef s \<and> pasteContent h k \<longrightarrow>
            (\<exists>s'. handleKeypress h s k = Some s' \<and> broadcast s' = broadcast s \<and> isPasteRef s' \<and>
               pasteBufferRef s' =
                 (if usePassthrough h then pasteBufferRef s else pasteBufferRef s @ sequence k) \<and>
               dragBufferAtom s' = dragBufferAtom s \<and>
               kittySequenceBufferAtom s' = kittySequenceBufferAtom s \<and>
               (\<exists>es. broadcast (render s') = broadcast s @ es \<and>
                     list_all (\<lambda>e. paste e \<and> \<not> ctrl e) es))) \<and>
         (usePassthrough h \<and> isPasteRef s \<and> toString h d = sequence k \<and> sequence k \<noteq> [] \<and>
          markerFree (sequence k) \<longrightarrow>
            (let s' = handleRawData h s d in
             broadcast s' = broadcast s \<and> isPasteRef s' \<and>
             pasteBufferRef s' = pasteBufferRef s @ sequence k \<and> written s' = written s \<and>
             (\<exists>es. broadcast (render s') = broadcast s @ es \<and>
                   list_all (\<lambda>e. paste e \<and> \<not> ctrl e) es))) \<and>
         (idle s \<and> plainKey h k \<and> \<not> prefix ESC (sequence k) \<longrightarrow>
            (\<exists>s'. handleKeypress h s k = Some s' \<and>
               broadcast s' =
                 broadcast s @ (if waitingForEnterRef s then [createSpecialKey [] BACKSLASH] else [])
                   @ [k] \<and>
               pasteBufferAtom s' = [] \<and> dragBufferAtom s' = [] \<and> kittySequenceBufferAtom s' = [] \<and>
               \<not> isPasteRef s' \<and> \<not> isDraggingRef s' \<and> \<not> waitingForEnterRef s'))"
proof (intro conjI impI)
  assume a: "isPasteRef s \<and> pasteContent h k"
  let ?s' = "if usePassthrough h then s
     else appendToPasteBuffer (sequence k) (s\<lparr>pasteBufferRef := pasteBufferRef s @ sequence k\<rparr>)"
  have 1: "handleKeypress h s k = Some ?s'"
    using a by (simp add: handleKeypress_capturing pasteContent_def)
  have 2: "broadcast ?s' = broadcast s" "isPasteRef ?s'"
    "pasteBufferRef ?s' =
       (if usePassthrough h then pasteBufferRef s else pasteBufferRef s @ sequence k)"
    "dragBufferAtom ?s' = dragBufferAtom s"
    "kittySequenceBufferAtom ?s' = kittySequenceBufferAtom s"
    using a by (simp_all add: appendToPasteBuffer_def)
  from render_broadcast [of ?s'] obtain es where
    3: "broadcast (render ?s') = broadcast s @ es" "list_all (\<lambda>e. paste e \<and> \<not> ctrl e) es"
    unfolding 2(1) by blast
  show "\<exists>s'. handleKeypress h s k = Some s' \<and> broadcast s' = broadcast s \<and> isPasteRef s' \<and>
               pasteBufferRef s' =
                 (if usePassthrough h then pasteBufferRef s else pasteBufferRef s @ sequence k) \<and>
               dragBufferAtom s' = dragBufferAtom s \<and>
               kittySequenceBufferAtom s' = kittySequenceBufferAtom s \<and>
               (\<exists>es. broadcast (render s') = broadcast s @ es \<and>
                     list_all (\<lambda>e. paste e \<and> \<not> ctrl e) es)"
  proof (intro exI [of _ "?s'"] conjI)
    show "\<exists>es. broadcast (render ?s') = broadcast s @ es \<and> list_all (\<lambda>e. paste e \<and> \<not> ctrl e) es"
      using 3 by blast
  qed (rule 1 2)+
next
  assume a: "usePassthrough h \<and> isPasteRef s \<and> toString h d = sequence k \<and> sequence k \<noteq> [] \<and>
          markerFree (sequence k)"
  let ?s' = "handleRawData h s d"
  have 1: "?s' = appendToPasteBuffer (sequence k) (s\<lparr>pasteBufferRef := pasteBufferRef s @ sequence k\<rparr>)"
    using a handleRawData_capturing [of h s d] by simp
  have 2: "broadcast ?s' = broadcast s" "isPasteRef ?s'"
    "pasteBufferRef ?s' = pasteBufferRef s @ sequence k" "written ?s' = written s"
    unfolding 1 using a by (simp_all add: appendToPasteBuffer_def)
  from render_broadcast [of ?s'] obtain es where
    3: "broadcast (render ?s') = broadcast s @ es" "list_all (\<lambda>e. paste e \<and> \<not> ctrl e) es"
    unfolding 2(1) by blast
  show "let s' = handleRawData h s d in
        broadcast s' = broadcast s \<and> isPasteRef s' \<and>
        pasteBufferRef s' = pasteBufferRef s @ sequence k \<and> written s' = written s \<and>
        (\<exists>es. broadcast (render s') = broadcast s @ es \<and> list_all (\<lambda>e. paste e \<and> \<not> ctrl e) es)"
    unfolding Let_def using 2 3 by blast
next
  assume a: "idle s \<and> plainKey h k \<and> \<not> prefix ESC (sequence k)"
  let ?s0 = "flushBackslash s k"
  let ?s' = "broadcastParsedKey ?s0 k"
  have seq: "sequence k \<noteq> ESC @ [CR]" "sequence k \<noteq> ESC @ [LF]"
    using a by (auto simp: ESC_def)
  have nm: "name k \<noteq> ''return''" "name k \<noteq> []"
    using assms by simp_all
  have "handleKeypress h s k = handleKitty h ?s0 k"
    using a seq nm by (simp add: handleKeypress_past_heuristics)
  also have "\<dots> = Some ?s'"
    using a by (simp add: handleKitty_not_taken)
  finally have 1: "handleKeypress h s k = Some ?s'" .
  have s': "?s' = broadcastKey k (clearBuffers ?s0)"
    using assms by (simp add: broadcastParsedKey_def)
  have 2: "broadcast ?s' =
      broadcast s @ (if waitingForEnterRef s then [createSpecialKey [] BACKSLASH] else []) @ [k]"
    unfolding s' using nm by (simp add: atom_defs flushBackslash_def)
  have 3: "pasteBufferAtom ?s' = []" "dragBufferAtom ?s' = []" "kittySequenceBufferAtom ?s' = []"
    unfolding s' by (simp_all add: atom_defs)
  have 4: "\<not> isPasteRef ?s'" "\<not> isDraggingRef ?s'"
    unfolding s' using a by (simp_all add: atom_defs idle_def)
  have 5: "\<not> waitingForEnterRef ?s'"
    unfolding s' using nm by (simp add: atom_defs flushBackslash_def)
  show "\<exists>s'. handleKeypress h s k = Some s' \<and>
               broadcast s' =
                 broadcast s @ (if waitingForEnterRef s then [createSpecialKey [] BACKSLASH] else [])
                   @ [k] \<and>
               pasteBufferAtom s' = [] \<and> dragBufferAtom s' = [] \<and> kittySequenceBufferAtom s' = [] \<and>
               \<not> isPasteRef s' \<and> \<not> isDraggingRef s' \<and> \<not> waitingForEnterRef s'"
    by (rule exI [of _ "?s'"]) (simp only: 1 2 3 4 5 simp_thms)
qed

theorem ctrl_c_capture_and_clear_witness:
  "ctrl ctrlC \<and> name ctrlC = ''c'' \<and>
   isPasteRef ((initialDecoder False)\<lparr>isPasteRef := True\<rparr>) \<and>
   pasteContent (sampleEnv False) ctrlC \<and>
   (\<exists>s'. handleKeypress (sampleEnv False) ((initialDecoder False)\<lparr>isPasteRef := True\<rparr>) ctrlC
            = Some s' \<and>
      broadcast s' = [] \<and> isPasteRef s' \<and> pasteBufferRef s' = sequence ctrlC) \<and>
   usePassthrough (sampleEnv True) \<and>
   toString (sampleEnv True) (bytesOf (sequence ctrlC)) = sequence ctrlC \<and>
   sequence ctrlC \<noteq> [] \<and> markerFree (sequence ctrlC) \<and>
   broadcast (handleRawData (sampleEnv True) ((initialDecoder False)\<lparr>isPasteRef := True\<rparr>)
                (bytesOf (sequence ctrlC))) = [] \<and>
   pasteBufferRef (handleRawData (sampleEnv True) ((initialDecoder False)\<lparr>isPasteRef := True\<rparr>)
                (bytesOf (sequence ctrlC))) = sequence ctrlC \<and>
   idle (initialDecoder False) \<and> plainKey (sampleEnv False) ctrlC \<and>
   \<not> prefix ESC (sequence ctrlC) \<and>
   (\<exists>s'. handleKeypress (sampleEnv False) (initialDecoder False) ctrlC = Some s' \<and>
      broadcast s' = [ctrlC] \<and> \<not> isPasteRef s')"
proof -
  let ?E = "sampleEnv False"
  let ?R = "sampleEnv True"
  let ?p = "(initialDecoder False)\<lparr>isPasteRef := True\<rparr>"
  let ?d = "bytesOf (sequence ctrlC)"
  have c: "ctrl ctrlC" and n: "name ctrlC = ''c''"
    by (simp_all add: ctrlC_def createSpecialKey_def)
  have pc: "pasteContent ?E ctrlC"
    using plainKey_sample_ctrlC [of False] by (simp add: plainKey_def pasteContent_def Let_def)
  have e: "\<not> prefix ESC (sequence ctrlC)"
    by (simp add: ctrlC_def createSpecialKey_def ESC_def)
  have r: "usePassthrough ?R" "toString ?R ?d = sequence ctrlC" "sequence ctrlC \<noteq> []"
    "markerFree (sequence ctrlC)"
    by code_simp+
  have v: "isPasteRef ?p" "broadcast ?p = []" "pasteBufferRef ?p = []" "\<not> usePassthrough ?E"
    "broadcast (initialDecoder False) = []" "\<not> waitingForEnterRef (initialDecoder False)"
    by (simp_all add: initialDecoder_def sampleEnv_def)
  from ctrl_c_capture_and_clear [OF c n, where s = ?p and h = ?E]
  have 1: "\<exists>s'. handleKeypress ?E ?p ctrlC = Some s' \<and> broadcast s' = [] \<and> isPasteRef s' \<and>
             pasteBufferRef s' = sequence ctrlC"
    using v pc by auto
  from ctrl_c_capture_and_clear [OF c n, where s = ?p and h = ?R and d = ?d]
  have 2: "broadcast (handleRawData ?R ?p ?d) = [] \<and>
           pasteBufferRef (handleRawData ?R ?p ?d) = sequence ctrlC"
    using v r by (simp add: Let_def)
  from ctrl_c_capture_and_clear [OF c n, where s = "initialDecoder False" and h = ?E]
  have 3: "\<exists>s'. handleKeypress ?E (initialDecoder False) ctrlC = Some s' \<and>
             broadcast s' = [ctrlC] \<and> \<not> isPasteRef s'"
    using v e idle_initial [of False] plainKey_sample_ctrlC [of False] by auto
  show ?thesis
    using c n v(1) pc 1 r 2 e 3 idle_initial [of False] plainKey_sample_ctrlC [of False]
    by simp
qed

text \<open>
  The claim as stated fails: after a paste start marker, Ctrl+C is not broadcast and
  the decoder is still capturing the paste, with Ctrl+C in its buffer, and the buffers
  are not cleared. When the provider renders next, the cleanup of the effect broadcasts
  a paste event with the Ctrl+C character as its text, and still no Ctrl+C key event.
  It is the same when raw data is intercepted.
\<close>

theorem ctrl_c_in_paste_is_captured:
  "map_option isPasteRef
     (run (sampleEnv False) (initialDecoder False) [Keypress (rawKey PASTE_MODE_PREFIX)]) = Some True \<and>
   map_option broadcast
     (run (sampleEnv False) (initialDecoder False) [Keypress (rawKey PASTE_MODE_PREFIX), Keypress ctrlC])
     = Some [] \<and>
   map_option isPasteRef
     (run (sampleEnv False) (initialDecoder False) [Keypress (rawKey PASTE_MODE_PREFIX), Keypress ctrlC])
     = Some True \<and>
   map_option pasteBufferRef
     (run (sampleEnv False) (initialDecoder False) [Keypress (rawKey PASTE_MODE_PREFIX), Keypress ctrlC])
     = Some (sequence ctrlC) \<and>
   map_option pasteBufferAtom
     (run (sampleEnv False) (initialDecoder False) [Keypress (rawKey PASTE_MODE_PREFIX), Keypress ctrlC])
     = Some (sequence ctrlC) \<and>
   map_option broadcast
     (run (sampleEnv False) (initialDecoder False)
        [Keypress (rawKey PASTE_MODE_PREFIX), Keypress ctrlC, Render])
     = Some [createPasteKey (sequence ctrlC)] \<and>
   map_option broadcast
     (run (sampleEnv True) (initialDecoder False)
        [RawData (bytesOf PASTE_MODE_PREFIX), RawData (bytesOf (sequence ctrlC))])
     = Some [] \<and>
   map_option isPasteRef
     (run (sampleEnv True) (initialDecoder False)
        [RawData (bytesOf PASTE_MODE_PREFIX), RawData (bytesOf (sequence ctrlC))])
     = Some True \<and>
   map_option broadcast
     (run (sampleEnv True) (initialDecoder False)
        [RawData (bytesOf PASTE_MODE_PREFIX), RawData (bytesOf (sequence ctrlC)), Render])
     = Some [createPasteKey (sequence ctrlC)]"
  by code_simp

section \<open>A paste in raw data\<close>

lemma capture_nothing:
  "appendToPasteBuffer [] (s\<lparr>pasteBufferRef := pasteBufferRef s @ []\<rparr>) = s"
  by (simp add: appendToPasteBuffer_def)

lemma rawLoop_at_prefix:
  "rawLoop s data (PASTE_MODE_PREFIX @ r) 0 =
     rawLoop (setPasteMode True (s\<lparr>isPasteRef := True, pasteBufferRef := []\<rparr>))
       data (PASTE_MODE_PREFIX @ r) 6"
  using rawLoop_start [of 0 "PASTE_MODE_PREFIX @ r" 0 s data]
  by (simp add: nextMarker_start beforeMarker_def)

lemma slice_middle: "slice (a @ c @ r) (length a) (length a + length c) = c"
  by (simp add: slice_def)

lemma rawLoop_start_chunk:
  assumes "markerFree c"
  shows "rawLoop s data (PASTE_MODE_PREFIX @ c) 0 =
     appendToPasteBuffer c
       ((setPasteMode True (s\<lparr>isPasteRef := True, pasteBufferRef := []\<rparr>))\<lparr>pasteBufferRef := c\<rparr>)"
proof -
  let ?s1 = "setPasteMode True (s\<lparr>isPasteRef := True, pasteBufferRef := []\<rparr>)"
  let ?d = "PASTE_MODE_PREFIX @ c"
  have 1: "rawLoop s data ?d 0 = rawLoop ?s1 data ?d 6"
    by (rule rawLoop_at_prefix)
  show ?thesis
  proof (cases "c = []")
    case True
    then show ?thesis
      unfolding 1 by (simp add: rawLoop_done appendToPasteBuffer_def setPasteMode_def)
  next
    case False
    have "nextMarker ?d (length PASTE_MODE_PREFIX + 0) = None"
      unfolding nextMarker_shift using assms by (simp add: nextMarker_markerFree)
    then have n: "nextMarker ?d 6 = None" by simp
    have "rawLoop ?s1 data ?d 6 =
        routeChunk (slice data 6 (length data)) (slice ?d 6 (length ?d)) ?s1"
      using False n by (intro rawLoop_rest) simp_all
    moreover have "slice ?d 6 (length ?d) = c"
      by (simp add: slice_def)
    ultimately show ?thesis
      unfolding 1 by (simp add: routeChunk_def setPasteMode_def appendToPasteBuffer_def)
  qed
qed

lemma rawLoop_end_chunk:
  assumes "isPasteRef s" and "markerFree c"
  shows "rawLoop s data (c @ PASTE_MODE_SUFFIX) 0 =
     completePaste (appendToPasteBuffer c (s\<lparr>pasteBufferRef := pasteBufferRef s @ c\<rparr>))"
proof -
  let ?d = "c @ PASTE_MODE_SUFFIX"
  let ?s1 = "appendToPasteBuffer c (s\<lparr>pasteBufferRef := pasteBufferRef s @ c\<rparr>)"
  have b: "beforeMarker s data ?d 0 (length c) = ?s1"
  proof (cases "c = []")
    case True
    then show ?thesis by (simp add: beforeMarker_def appendToPasteBuffer_def)
  next
    case False
    then show ?thesis
      using assms(1) by (simp add: beforeMarker_def routeChunk_def slice_def)
  qed
  have "rawLoop s data ?d 0 =
      rawLoop (completePaste (beforeMarker s data ?d 0 (length c))) data ?d
        (length c + length PASTE_MODE_SUFFIX)"
    using assms(2) by (intro rawLoop_finish nextMarker_end) simp
  then show ?thesis
    unfolding b by (simp add: rawLoop_done)
qed

lemma rawLoop_whole_paste:
  assumes "markerFree c"
  shows "rawLoop s data (PASTE_MODE_PREFIX @ c @ PASTE_MODE_SUFFIX) 0 =
     completePaste
       (appendToPasteBuffer c
          ((setPasteMode True (s\<lparr>isPasteRef := True, pasteBufferRef := []\<rparr>))\<lparr>pasteBufferRef := c\<rparr>))"
proof -
  let ?s1 = "setPasteMode True (s\<lparr>isPasteRef := True, pasteBufferRef := []\<rparr>)"
  let ?d = "PASTE_MODE_PREFIX @ c @ PASTE_MODE_SUFFIX"
  let ?s2 = "appendToPasteBuffer c (?s1\<lparr>pasteBufferRef := c\<rparr>)"
  have 1: "rawLoop s data ?d 0 = rawLoop ?s1 data ?d 6"
    by (rule rawLoop_at_prefix)
  have "nextMarker ?d (length PASTE_MODE_PREFIX + 0) = Some (length PASTE_MODE_PREFIX + length c, False)"
    unfolding nextMarker_shift using assms by (simp add: nextMarker_end)
  then have n: "nextMarker ?d 6 = Some (6 + length c, False)" by simp
  have b: "beforeMarker ?s1 data ?d 6 (6 + length c) = ?s2"
  proof (cases "c = []")
    case True
    then show ?thesis by (simp add: beforeMarker_def appendToPasteBuffer_def setPasteMode_def)
  next
    case False
    have "slice ?d 6 (6 + length c) = c"
      using slice_middle [of PASTE_MODE_PREFIX c PASTE_MODE_SUFFIX] by simp
    with False show ?thesis
      by (simp add: beforeMarker_def routeChunk_def setPasteMode_def appendToPasteBuffer_def)
  qed
  have "rawLoop ?s1 data ?d 6 =
      rawLoop (completePaste (beforeMarker ?s1 data ?d 6 (6 + length c))) data ?d
        (6 + length c + length PASTE_MODE_SUFFIX)"
    using n by (intro rawLoop_finish) simp_all
  then show ?thesis
    unfolding 1 b by (simp add: rawLoop_done)
qed

lemma capture_chunks:
  assumes "usePassthrough h" and "isPasteRef s" and "list_all (\<lambda>d. markerFree (toString h d)) ds"
  shows "\<exists>s1. run h s (map RawData ds) = Some s1 \<and> isPasteRef s1 \<and>
           pasteBufferRef s1 = pasteBufferRef s @ concat (map (toString h) ds) \<and>
           broadcast s1 = broadcast s \<and> written s1 = written s"
  using assms(2,3)
proof (induction ds arbitrary: s)
  case Nil
  then show ?case by simp
next
  case (Cons d ds)
  let ?s1 = "handleRawData h s d"
  have 1: "?s1 = (if toString h d = [] then s
      else appendToPasteBuffer (toString h d) (s\<lparr>pasteBufferRef := pasteBufferRef s @ toString h d\<rparr>))"
    using Cons.prems assms(1) by (intro handleRawData_capturing) simp_all
  have 2: "isPasteRef ?s1" "pasteBufferRef ?s1 = pasteBufferRef s @ toString h d"
    "broadcast ?s1 = broadcast s" "written ?s1 = written s"
    unfolding 1 using Cons.prems by (simp_all add: appendToPasteBuffer_def)
  from Cons.IH [of ?s1] Cons.prems 2 obtain s2 where
    "run h ?s1 (map RawData ds) = Some s2" "isPasteRef s2"
    "pasteBufferRef s2 = pasteBufferRef ?s1 @ concat (map (toString h) ds)"
    "broadcast s2 = broadcast ?s1" "written s2 = written ?s1"
    by auto
  then show ?case
    using 2 by (simp add: step_def)
qed

lemma completePaste_capturing:
  assumes "isPasteRef s"
  shows "broadcast (completePaste s) =
           broadcast s @ (if pasteBufferRef s = [] then []
                          else [createPasteKey (normalizedBuffer (pasteBufferRef s))])"
    and "isPasteRef (completePaste s) = (pasteBufferRef s = [])"
    and "written (completePaste s) = written s"
  using assms by (simp_all add: completePaste_def Let_def atom_defs)

section \<open>Bracketed paste\<close>

text \<open>
  Claim C1, as amended. A paste start marker, then content that holds no marker and no
  focus report, then the end marker, all handled before the provider renders again:
  if the content is not empty, exactly one key is broadcast, the paste key whose text
  is the content with every \<^verbatim>\<open>\r\n\<close> and then every remaining \<^verbatim>\<open>\r\<close> replaced by \<^verbatim>\<open>\n\<close>,
  and the decoder has left paste capture; if the content is empty, nothing is
  broadcast (and the decoder stays in paste capture). This holds

  \<^item> when keypresses are decoded, for the marker keys and any content keys that are
    neither focus reports nor paste boundaries, the content being their sequences in
    order;

  \<^item> when raw data is intercepted, for one chunk that holds the start marker, the
    content and the end marker, and

  \<^item> for several chunks, the first starting with the start marker, the last ending
    with the end marker, the content being what lies between, no chunk holding a
    marker inside its part of the content; nothing is written to the keypress stream.

  A normalized text holds no carriage return.
\<close>

theorem bracketed_paste_one_event:
  "(\<not> usePassthrough h \<and> pasteStartKey h ks \<and> list_all (pasteContent h) cs \<and> pasteEndKey h ke \<longrightarrow>
      (\<exists>s'. run h s (Keypress ks # map Keypress cs @ [Keypress ke]) = Some s' \<and>
         broadcast s' =
           broadcast s @
             (if concat (map sequence cs) = [] then []
              else [createPasteKey (normalizedBuffer (concat (map sequence cs)))]) \<and>
         isPasteRef s' = (concat (map sequence cs) = []))) \<and>
   (usePassthrough h \<and> toString h d = PASTE_MODE_PREFIX @ c @ PASTE_MODE_SUFFIX \<and> markerFree c \<longrightarrow>
      (\<exists>s'. run h s [RawData d] = Some s' \<and>
         broadcast s' =
           broadcast s @ (if c = [] then [] else [createPasteKey (normalizedBuffer c)]) \<and>
         written s' = written s \<and> isPasteRef s' = (c = []))) \<and>
   (usePassthrough h \<and> toString h d0 = PASTE_MODE_PREFIX @ c0 \<and> markerFree c0 \<and>
    list_all (\<lambda>d. markerFree (toString h d)) ds \<and>
    toString h dn = cn @ PASTE_MODE_SUFFIX \<and> markerFree cn \<longrightarrow>
      (\<exists>s'. run h s (RawData d0 # map RawData ds @ [RawData dn]) = Some s' \<and>
         broadcast s' =
           broadcast s @
             (if c0 @ concat (map (toString h) ds) @ cn = [] then []
              else [createPasteKey (normalizedBuffer (c0 @ concat (map (toString h) ds) @ cn))]) \<and>
         written s' = written s \<and>
         isPasteRef s' = (c0 @ concat (map (toString h) ds) @ cn = []))) \<and>
   CR \<notin> set (normalizedBuffer b)"
proof (intro conjI impI)
  assume a: "\<not> usePassthrough h \<and> pasteStartKey h ks \<and> list_all (pasteContent h) cs \<and>
             pasteEndKey h ke"
  let ?text = "concat (map sequence cs)"
  let ?s1 = "setPasteMode True (s\<lparr>isPasteRef := True, pasteBufferRef := []\<rparr>)"
  have 1: "handleKeypress h s ks = Some ?s1"
    using a by (intro handleKeypress_paste_start) (simp_all add: pasteStartKey_def)
  have p1: "isPasteRef ?s1" "pasteBufferRef ?s1 = []" "broadcast ?s1 = broadcast s"
    by (simp_all add: setPasteMode_def)
  from a have u: "\<not> usePassthrough h" and cs: "list_all (pasteContent h) cs" by simp_all
  from capture_keys [OF u p1(1) cs] p1 obtain s2 where
    2: "run h ?s1 (map Keypress cs) = Some s2" and
    p2: "isPasteRef s2" "pasteBufferRef s2 = ?text" "broadcast s2 = broadcast s"
    by auto
  have 3: "handleKeypress h s2 ke = Some (completePaste s2)"
    using a by (intro handleKeypress_paste_end) (simp_all add: pasteEndKey_def)
  have r: "run h s (Keypress ks # map Keypress cs @ [Keypress ke]) = Some (completePaste s2)"
    by (simp add: step_def 1 run_append 2 3)
  have b: "broadcast (completePaste s2) =
      broadcast s @ (if ?text = [] then [] else [createPasteKey (normalizedBuffer ?text)])"
    using completePaste_capturing(1) [OF p2(1)] p2 by simp
  have q: "isPasteRef (completePaste s2) = (?text = [])"
    using completePaste_capturing(2) [OF p2(1)] p2 by simp
  show "\<exists>s'. run h s (Keypress ks # map Keypress cs @ [Keypress ke]) = Some s' \<and>
         broadcast s' =
           broadcast s @ (if ?text = [] then [] else [createPasteKey (normalizedBuffer ?text)]) \<and>
         isPasteRef s' = (?text = [])"
    by (rule exI [of _ "completePaste s2"]) (simp only: r b q simp_thms)
next
  assume a: "usePassthrough h \<and> toString h d = PASTE_MODE_PREFIX @ c @ PASTE_MODE_SUFFIX \<and>
             markerFree c"
  let ?s1 = "setPasteMode True (s\<lparr>isPasteRef := True, pasteBufferRef := []\<rparr>)"
  let ?s2 = "appendToPasteBuffer c (?s1\<lparr>pasteBufferRef := c\<rparr>)"
  have p2: "isPasteRef ?s2" "pasteBufferRef ?s2 = c" "broadcast ?s2 = broadcast s"
    "written ?s2 = written s"
    by (simp_all add: setPasteMode_def appendToPasteBuffer_def)
  have r: "run h s [RawData d] = Some (completePaste ?s2)"
    using a by (simp add: step_def handleRawData_def rawLoop_whole_paste)
  show "\<exists>s'. run h s [RawData d] = Some s' \<and>
         broadcast s' =
           broadcast s @ (if c = [] then [] else [createPasteKey (normalizedBuffer c)]) \<and>
         written s' = written s \<and> isPasteRef s' = (c = [])"
    using completePaste_capturing [OF p2(1)] p2
    by (intro exI [of _ "completePaste ?s2"]) (simp only: r simp_thms)
next
  assume a: "usePassthrough h \<and> toString h d0 = PASTE_MODE_PREFIX @ c0 \<and> markerFree c0 \<and>
    list_all (\<lambda>d. markerFree (toString h d)) ds \<and>
    toString h dn = cn @ PASTE_MODE_SUFFIX \<and> markerFree cn"
  let ?mid = "concat (map (toString h) ds)"
  let ?text = "c0 @ ?mid @ cn"
  let ?s0 = "setPasteMode True (s\<lparr>isPasteRef := True, pasteBufferRef := []\<rparr>)"
  let ?s1 = "appendToPasteBuffer c0 (?s0\<lparr>pasteBufferRef := c0\<rparr>)"
  have p1: "isPasteRef ?s1" "pasteBufferRef ?s1 = c0" "broadcast ?s1 = broadcast s"
    "written ?s1 = written s"
    by (simp_all add: setPasteMode_def appendToPasteBuffer_def)
  have 1: "handleRawData h s d0 = ?s1"
    using a by (simp add: handleRawData_def rawLoop_start_chunk)
  from a have u: "usePassthrough h" and ds: "list_all (\<lambda>d. markerFree (toString h d)) ds"
    by simp_all
  from capture_chunks [OF u p1(1) ds] p1 obtain s2 where
    2: "run h ?s1 (map RawData ds) = Some s2" and
    p2: "isPasteRef s2" "pasteBufferRef s2 = c0 @ ?mid" "broadcast s2 = broadcast s"
      "written s2 = written s"
    by auto
  let ?s3 = "appendToPasteBuffer cn (s2\<lparr>pasteBufferRef := pasteBufferRef s2 @ cn\<rparr>)"
  have p3: "isPasteRef ?s3" "pasteBufferRef ?s3 = ?text" "broadcast ?s3 = broadcast s"
    "written ?s3 = written s"
    using p2 by (simp_all add: appendToPasteBuffer_def)
  have 3: "handleRawData h s2 dn = completePaste ?s3"
    using a p2(1) by (simp add: handleRawData_def rawLoop_end_chunk)
  have r: "run h s (RawData d0 # map RawData ds @ [RawData dn]) = Some (completePaste ?s3)"
    by (simp add: step_def 1 run_append 2 3)
  show "\<exists>s'. run h s (RawData d0 # map RawData ds @ [RawData dn]) = Some s' \<and>
         broadcast s' =
           broadcast s @ (if ?text = [] then [] else [createPasteKey (normalizedBuffer ?text)]) \<and>
         written s' = written s \<and> isPasteRef s' = (?text = [])"
    using completePaste_capturing [OF p3(1)] p3
    by (intro exI [of _ "completePaste ?s3"]) (simp only: r simp_thms)
next
  show "CR \<notin> set (normalizedBuffer b)"
    by (rule normalizedBuffer_no_CR)
qed

theorem bracketed_paste_one_event_witness:
  "\<not> usePassthrough (sampleEnv False) \<and>
   pasteStartKey (sampleEnv False) (rawKey PASTE_MODE_PREFIX) \<and>
   list_all (pasteContent (sampleEnv False))
     [rawKey ''a'', rawKey [CR, LF], rawKey ''b'', rawKey [CR], rawKey ''c''] \<and>
   pasteEndKey (sampleEnv False) (rawKey PASTE_MODE_SUFFIX) \<and>
   (\<exists>s'. run (sampleEnv False) (initialDecoder False)
           (Keypress (rawKey PASTE_MODE_PREFIX) #
            map Keypress [rawKey ''a'', rawKey [CR, LF], rawKey ''b'', rawKey [CR], rawKey ''c''] @
            [Keypress (rawKey PASTE_MODE_SUFFIX)]) = Some s' \<and>
      broadcast s' = [createPasteKey (''a'' @ [LF] @ ''b'' @ [LF] @ ''c'')] \<and> \<not> isPasteRef s') \<and>
   usePassthrough (sampleEnv True) \<and>
   toString (sampleEnv True)
     (bytesOf (PASTE_MODE_PREFIX @ (''a'' @ [CR, LF] @ ''b'') @ PASTE_MODE_SUFFIX))
     = PASTE_MODE_PREFIX @ (''a'' @ [CR, LF] @ ''b'') @ PASTE_MODE_SUFFIX \<and>
   markerFree (''a'' @ [CR, LF] @ ''b'') \<and>
   (\<exists>s'. run (sampleEnv True) (initialDecoder False)
           [RawData (bytesOf (PASTE_MODE_PREFIX @ (''a'' @ [CR, LF] @ ''b'') @ PASTE_MODE_SUFFIX))]
           = Some s' \<and>
      broadcast s' = [createPasteKey (''a'' @ [LF] @ ''b'')] \<and> written s' = [] \<and> \<not> isPasteRef s') \<and>
   toString (sampleEnv True) (bytesOf (PASTE_MODE_PREFIX @ ''a'')) = PASTE_MODE_PREFIX @ ''a'' \<and>
   markerFree ''a'' \<and>
   list_all (\<lambda>d. markerFree (toString (sampleEnv True) d)) [bytesOf [CR], bytesOf (LF # ''b'')] \<and>
   toString (sampleEnv True) (bytesOf (''c'' @ PASTE_MODE_SUFFIX)) = ''c'' @ PASTE_MODE_SUFFIX \<and>
   markerFree ''c'' \<and>
   (\<exists>s'. run (sampleEnv True) (initialDecoder False)
           (RawData (bytesOf (PASTE_MODE_PREFIX @ ''a'')) #
            map RawData [bytesOf [CR], bytesOf (LF # ''b'')] @
            [RawData (bytesOf (''c'' @ PASTE_MODE_SUFFIX))]) = Some s' \<and>
      broadcast s' = [createPasteKey (''a'' @ [LF] @ ''bc'')] \<and> written s' = [] \<and> \<not> isPasteRef s')"
proof -
  let ?E = "sampleEnv False" and ?R = "sampleEnv True"
  let ?cs = "[rawKey ''a'', rawKey [CR, LF], rawKey ''b'', rawKey [CR], rawKey ''c'']"
  let ?c = "''a'' @ [CR, LF] @ ''b''"
  let ?d = "bytesOf (PASTE_MODE_PREFIX @ ?c @ PASTE_MODE_SUFFIX)"
  let ?first = "bytesOf (PASTE_MODE_PREFIX @ ''a'')"
  let ?ds = "[bytesOf [CR], bytesOf (LF # ''b'')]"
  let ?last = "bytesOf (''c'' @ PASTE_MODE_SUFFIX)"
  have u: "\<not> usePassthrough ?E" "usePassthrough ?R"
    by (simp_all add: sampleEnv_def)
  have k: "pasteStartKey ?E (rawKey PASTE_MODE_PREFIX)" "pasteEndKey ?E (rawKey PASTE_MODE_SUFFIX)"
    by (simp_all add: pasteStartKey_def pasteEndKey_def sampleEnv_def rawKey_def
          createSpecialKey_def char_defs)
  have cs: "list_all (pasteContent ?E) ?cs"
    by (simp add: pasteContent_sample char_defs)
  have tx: "concat (map sequence ?cs) = ''a'' @ [CR, LF] @ ''b'' @ [CR] @ ''c''"
    by (simp add: rawKey_def createSpecialKey_def)
  have nb: "normalizedBuffer (''a'' @ [CR, LF] @ ''b'' @ [CR] @ ''c'') = ''a'' @ [LF] @ ''b'' @ [LF] @ ''c''"
    "normalizedBuffer ?c = ''a'' @ [LF] @ ''b''"
    "normalizedBuffer (''a'' @ [CR] @ (LF # ''b'') @ ''c'') = ''a'' @ [LF] @ ''bc''"
    by (simp_all add: normalizedBuffer_def replaceCR_def CR_def LF_def)
  have t1: "toString ?R ?d = PASTE_MODE_PREFIX @ ?c @ PASTE_MODE_SUFFIX"
    by code_simp
  have t2: "toString ?R ?first = PASTE_MODE_PREFIX @ ''a''"
    by code_simp
  have t3: "toString ?R ?last = ''c'' @ PASTE_MODE_SUFFIX"
    by code_simp
  have t4: "map (toString ?R) ?ds = [[CR], LF # ''b'']"
    by code_simp
  note t = t1 t2 t3 t4
  have m1: "markerFree ?c"
    by code_simp
  have m2: "markerFree ''a''"
    by code_simp
  have m3: "markerFree ''c''"
    by code_simp
  have m4: "list_all (\<lambda>d. markerFree (toString ?R d)) ?ds"
    by code_simp
  note m = m1 m2 m3 m4
  have i: "broadcast (initialDecoder False) = []" "written (initialDecoder False) = []"
    by (simp_all add: initialDecoder_def)
  from bracketed_paste_one_event
    [where h = ?E and ks = "rawKey PASTE_MODE_PREFIX" and cs = ?cs and ke = "rawKey PASTE_MODE_SUFFIX"
       and s = "initialDecoder False"]
  have 1: "\<exists>s'. run ?E (initialDecoder False)
           (Keypress (rawKey PASTE_MODE_PREFIX) # map Keypress ?cs @ [Keypress (rawKey PASTE_MODE_SUFFIX)])
           = Some s' \<and>
      broadcast s' = [createPasteKey (''a'' @ [LF] @ ''b'' @ [LF] @ ''c'')] \<and> \<not> isPasteRef s'"
    using u k cs unfolding tx nb i by auto
  from bracketed_paste_one_event [where h = ?R and d = ?d and c = ?c and s = "initialDecoder False"]
  have 2: "\<exists>s'. run ?R (initialDecoder False) [RawData ?d] = Some s' \<and>
      broadcast s' = [createPasteKey (''a'' @ [LF] @ ''b'')] \<and> written s' = [] \<and> \<not> isPasteRef s'"
    using u t(1) m(1) unfolding nb i by auto
  from bracketed_paste_one_event
    [where h = ?R and ?d0.0 = ?first and ?c0.0 = "''a''" and ds = ?ds and dn = ?last and cn = "''c''"
       and s = "initialDecoder False"]
  have 3: "\<exists>s'. run ?R (initialDecoder False) (RawData ?first # map RawData ?ds @ [RawData ?last]) = Some s' \<and>
      broadcast s' = [createPasteKey (''a'' @ [LF] @ ''bc'')] \<and> written s' = [] \<and> \<not> isPasteRef s'"
    using u t m nb(3) unfolding i by auto
  show ?thesis
    by (intro conjI u k cs 1 t(1) m(1) 2 t(2) m(2) m(4) t(3) m(3) 3)
qed

text \<open>
  The claim as stated fails for the empty content: a start marker followed at once by
  the end marker broadcasts nothing, on either path. It fails for content that holds
  a focus report or a marker: the focus report is left out of the text, and a second
  start marker drops what was captured before it. It fails when raw data is
  intercepted and a chunk boundary cuts the start marker: the raw-data handler finds
  no start marker and writes the pieces and the content to the keypress stream. And
  it fails when the provider renders between two deliveries of the content: the first
  content written to the paste atom changes a dependency of the effect, whose cleanup
  completes the paste with what has been captured so far; what follows is handled as
  typed keys, or written to the keypress stream.
\<close>

theorem empty_paste_no_event:
  "map_option broadcast
     (run (sampleEnv False) (initialDecoder False)
        [Keypress (rawKey PASTE_MODE_PREFIX), Keypress (rawKey PASTE_MODE_SUFFIX)]) = Some [] \<and>
   map_option broadcast
     (run (sampleEnv True) (initialDecoder False)
        [RawData (bytesOf (PASTE_MODE_PREFIX @ PASTE_MODE_SUFFIX))]) = Some [] \<and>
   map_option broadcast
     (run (sampleEnv False) (initialDecoder False)
        [Keypress (rawKey PASTE_MODE_PREFIX), Keypress (rawKey ''a''),
         Keypress (rawKey (ESC @ ''[I'')), Keypress (rawKey ''b''),
         Keypress (rawKey PASTE_MODE_SUFFIX)])
     = Some [createPasteKey ''ab''] \<and>
   map_option broadcast
     (run (sampleEnv False) (initialDecoder False)
        [Keypress (rawKey PASTE_MODE_PREFIX), Keypress (rawKey ''a''),
         Keypress (rawKey PASTE_MODE_PREFIX), Keypress (rawKey ''b''),
         Keypress (rawKey PASTE_MODE_SUFFIX)])
     = Some [createPasteKey ''b''] \<and>
   map_option broadcast
     (run (sampleEnv True) (initialDecoder False)
        [RawData (bytesOf (ESC @ ''[20'')), RawData (bytesOf (''0~a'' @ PASTE_MODE_SUFFIX))])
     = Some [] \<and>
   map_option written
     (run (sampleEnv True) (initialDecoder False)
        [RawData (bytesOf (ESC @ ''[20'')), RawData (bytesOf (''0~a'' @ PASTE_MODE_SUFFIX))])
     = Some [bytesOf (ESC @ ''[20''), bytesOf ''0~a''] \<and>
   map_option broadcast
     (run (sampleEnv False) (initialDecoder False)
        [Keypress (rawKey PASTE_MODE_PREFIX), Keypress (rawKey ''a''), Render,
         Keypress (rawKey ''b''), Keypress (rawKey PASTE_MODE_SUFFIX)])
     = Some [createPasteKey ''a'', rawKey ''b''] \<and>
   map_option broadcast
     (run (sampleEnv True) (initialDecoder False)
        [RawData (bytesOf (PASTE_MODE_PREFIX @ ''a'')), Render,
         RawData (bytesOf (''b'' @ PASTE_MODE_SUFFIX))])
     = Some [createPasteKey ''a''] \<and>
   map_option written
     (run (sampleEnv True) (initialDecoder False)
        [RawData (bytesOf (PASTE_MODE_PREFIX @ ''a'')), Render,
         RawData (bytesOf (''b'' @ PASTE_MODE_SUFFIX))])
     = Some [bytesOf ''b'']"
  by code_simp

section \<open>The extended-sequence accumulator\<close>

lemma broadcast_flushBackslash:
  "name k \<noteq> ''return'' \<or> \<not> waitingForEnterRef s \<Longrightarrow>
   broadcast (flushBackslash s k) =
     broadcast s @ (if waitingForEnterRef s then [createSpecialKey [] BACKSLASH] else [])"
  by (auto simp: flushBackslash_def broadcastKey_def)

lemma handleKitty_parsed:
  assumes "isKittyEnabled s" and "prefix ESC (sequence k)"
    and "parseKittySequence h (sequence k) = (Some key, n)"
  shows "handleKitty h s k = Some (broadcastKey key s)"
  using assms by (simp add: handleKitty_def)

text \<open>
  No stall: a key that reaches line 348 and parses as a complete sequence is broadcast
  as the parsed key at once (lines 350-358), after the pending backslash if there is
  one, whatever the accumulator holds, which is left as it is.
\<close>

lemma valid_sequence_parsed_at_once:
  assumes "idle s" and "plainKey h k" and "name k \<noteq> ''return'' \<or> \<not> waitingForEnterRef s"
    and "sequence k \<noteq> ESC @ [CR]" and "sequence k \<noteq> ESC @ [LF]"
    and "isKittyEnabled s" and "prefix ESC (sequence k)"
    and "parseKittySequence h (sequence k) = (Some key, n)"
  shows "\<exists>s'. handleKeypress h s k = Some s' \<and>
           kittySequenceBufferAtom s' = kittySequenceBufferAtom s \<and>
           broadcast s' =
             broadcast s @ (if waitingForEnterRef s then [createSpecialKey [] BACKSLASH] else [])
               @ [key]"
proof -
  let ?s0 = "flushBackslash s k"
  have nb: "sequence k \<noteq> BACKSLASH \<or> name k \<noteq> []"
    using assms(7) by (auto simp: char_defs)
  have 1: "handleKeypress h s k = handleKitty h ?s0 k"
    using assms(1-5) nb by (intro handleKeypress_past_heuristics)
  have 2: "handleKitty h ?s0 k = Some (broadcastKey key ?s0)"
    using assms(6-8) by (intro handleKitty_parsed [where n = n]) simp_all
  have 3: "broadcast (broadcastKey key ?s0) = broadcast ?s0 @ [key]"
    and 4: "kittySequenceBufferAtom (broadcastKey key ?s0) = kittySequenceBufferAtom s"
    by (simp_all add: broadcastKey_def)
  have 5: "broadcast ?s0 =
      broadcast s @ (if waitingForEnterRef s then [createSpecialKey [] BACKSLASH] else [])"
    using assms(3) by (intro broadcast_flushBackslash)
  show ?thesis
    by (intro exI [of _ "broadcastKey key ?s0"]) (simp add: 1 2 3 4 5)
qed

text \<open>
  The key \<^verbatim>\<open>ESC[5735\<close> is what readline makes of the start of a sequence with a longer
  number, such as \<^verbatim>\<open>ESC[57358u\<close>: it starts with \<^verbatim>\<open>ESC\<close> and nothing can be parsed from it.
  As long as the handler in place closes over an empty \<^verbatim>\<open>kittyBuffer\<close>, every such key is
  appended to the accumulator and nothing else happens, however long the accumulator
  is.
\<close>

lemma unparsed_unit_accumulates:
  assumes "idle s" and "\<not> waitingForEnterRef s" and "isKittyEnabled s" and "kittyBuffer s = []"
  shows "handleKeypress (sampleBound m) s (rawKey (ESC @ ''[5735'')) =
           Some (appendToKittyBuffer (ESC @ ''[5735'') s)"
proof -
  let ?k = "rawKey (ESC @ ''[5735'')"
  have pk: "plainKey (sampleBound m) ?k"
    by code_simp
  have sq: "sequence ?k = ESC @ ''[5735''" "name ?k = []"
    by (simp_all add: rawKey_def createSpecialKey_def)
  have ne: "sequence ?k \<noteq> ESC @ [CR]" "sequence ?k \<noteq> ESC @ [LF]" "sequence ?k \<noteq> BACKSLASH"
    "prefix ESC (sequence ?k)"
    by code_simp+
  have p: "parseKittySequence (sampleBound m) (ESC @ ''[5735'') = (None, 0)"
    by code_simp
  have l: "kittyLoop (parseKittySequence (sampleBound m)) (ESC @ ''[5735'') False []
             = Some (ESC @ ''[5735'', False, [])"
    by code_simp
  have "handleKeypress (sampleBound m) s ?k = handleKitty (sampleBound m) (flushBackslash s ?k) ?k"
    using assms(1,2) pk ne by (intro handleKeypress_past_heuristics) simp_all
  also have "flushBackslash s ?k = s"
    using assms(2) by simp
  also have "handleKitty (sampleBound m) s ?k = Some (appendToKittyBuffer (ESC @ ''[5735'') s)"
    using assms(3,4) ne(4) unfolding handleKitty_def sq(1)
    by (simp add: p l appendToKittyBuffer_def)
  finally show ?thesis .
qed

lemma accumulator_grows_within_tick:
  assumes "idle s" and "\<not> waitingForEnterRef s" and "isKittyEnabled s" and "kittyBuffer s = []"
  shows "\<exists>s'. run (sampleBound m) s (replicate n (Keypress (rawKey (ESC @ ''[5735'')))) = Some s' \<and>
           kittySequenceBufferAtom s' =
             kittySequenceBufferAtom s @ concat (replicate n (ESC @ ''[5735'')) \<and>
           broadcast s' = broadcast s"
  using assms
proof (induction n arbitrary: s)
  case 0
  then show ?case by simp
next
  case (Suc n)
  let ?s1 = "appendToKittyBuffer (ESC @ ''[5735'') s"
  have 1: "handleKeypress (sampleBound m) s (rawKey (ESC @ ''[5735'')) = Some ?s1"
    using Suc.prems by (rule unparsed_unit_accumulates)
  have 2: "idle ?s1" "\<not> waitingForEnterRef ?s1" "isKittyEnabled ?s1" "kittyBuffer ?s1 = []"
    "broadcast ?s1 = broadcast s"
    "kittySequenceBufferAtom ?s1 = kittySequenceBufferAtom s @ ESC @ ''[5735''"
    using Suc.prems by (simp_all add: appendToKittyBuffer_def idle_def)
  from Suc.IH [OF 2(1-4)] obtain s' where
    "run (sampleBound m) ?s1 (replicate n (Keypress (rawKey (ESC @ ''[5735'')))) = Some s'"
    "kittySequenceBufferAtom s' =
       kittySequenceBufferAtom ?s1 @ concat (replicate n (ESC @ ''[5735''))"
    "broadcast s' = broadcast ?s1"
    by blast
  then show ?case
    using 1 2 by (simp add: step_def)
qed

lemma accumulator_from_start:
  "\<exists>s. run (sampleBound m) (initialDecoder True) (replicate n (Keypress (rawKey (ESC @ ''[5735''))))
         = Some s \<and>
       length (kittySequenceBufferAtom s) = 6 * n \<and> broadcast s = []"
proof -
  have i: "idle (initialDecoder True)" "\<not> waitingForEnterRef (initialDecoder True)"
    "isKittyEnabled (initialDecoder True)" "kittyBuffer (initialDecoder True) = []"
    "kittySequenceBufferAtom (initialDecoder True) = []" "broadcast (initialDecoder True) = []"
    by (simp_all add: initialDecoder_def idle_def)
  from accumulator_grows_within_tick [OF i(1-4), of m n] obtain s where
    "run (sampleBound m) (initialDecoder True) (replicate n (Keypress (rawKey (ESC @ ''[5735'')))) = Some s"
    "kittySequenceBufferAtom s = concat (replicate n (ESC @ ''[5735''))" "broadcast s = []"
    unfolding i(5,6) by auto
  moreover have "length (concat (replicate n (ESC @ ''[5735''))) = 6 * n"
    by (induction n) (simp_all add: ESC_def)
  ultimately show ?thesis
    by auto
qed

text \<open>
  Claim C5 at a failing input. The provider gets several keys \<^verbatim>\<open>ESC[5735\<close> in one tick,
  that is, before it renders again. Each is appended to the accumulator (line 362).
  The overflow test of line 401 reads the constant \<^verbatim>\<open>kittyBuffer\<close> of the last render
  (line 137), which is still empty, so it does not fire: whatever the length bound is,
  after \<open>n\<close> keys the accumulator holds \<open>6 n\<close> characters and nothing has been broadcast.
  With the spec's example of a bound, 256, it holds 258 characters after 43 keys.
  With a bound of 8, step by step: it holds 12 characters after two keys and 18 after
  three. The accumulator is emptied only when the provider renders, by the cleanup of
  the effect (line 524). The overflow test fires only for a key that arrives between
  the render that follows the appends and the render that follows the cleanup; that
  key is then broadcast as a plain key. After both renders the next such key is
  accumulated again.
\<close>

theorem accumulator_not_reset:
  "(\<forall>m n. \<exists>s. run (sampleBound m) (initialDecoder True)
                   (replicate n (Keypress (rawKey (ESC @ ''[5735'')))) = Some s \<and>
                 length (kittySequenceBufferAtom s) = 6 * n \<and> broadcast s = []) \<and>
   (\<exists>s. run (sampleBound 256) (initialDecoder True)
            (replicate 43 (Keypress (rawKey (ESC @ ''[5735'')))) = Some s \<and>
          MAX_KITTY_SEQUENCE_LENGTH (sampleBound 256) < length (kittySequenceBufferAtom s) \<and>
          broadcast s = []) \<and>
   MAX_KITTY_SEQUENCE_LENGTH (sampleBound 8) = 8 \<and>
   fst (parseKittySequence (sampleBound 8) (ESC @ ''[5735'')) = None \<and>
   map_option (\<lambda>s. length (kittySequenceBufferAtom s))
     (run (sampleBound 8) (initialDecoder True)
        [Keypress (rawKey (ESC @ ''[5735'')), Keypress (rawKey (ESC @ ''[5735''))])
     = Some 12 \<and>
   map_option (\<lambda>s. length (kittySequenceBufferAtom s))
     (run (sampleBound 8) (initialDecoder True)
        [Keypress (rawKey (ESC @ ''[5735'')), Keypress (rawKey (ESC @ ''[5735'')),
         Keypress (rawKey (ESC @ ''[5735''))])
     = Some 18 \<and>
   map_option broadcast
     (run (sampleBound 8) (initialDecoder True)
        [Keypress (rawKey (ESC @ ''[5735'')), Keypress (rawKey (ESC @ ''[5735'')),
         Keypress (rawKey (ESC @ ''[5735''))])
     = Some [] \<and>
   map_option kittySequenceBufferAtom
     (run (sampleBound 8) (initialDecoder True)
        [Keypress (rawKey (ESC @ ''[5735'')), Keypress (rawKey (ESC @ ''[5735'')), Render])
     = Some [] \<and>
   map_option broadcast
     (run (sampleBound 8) (initialDecoder True)
        [Keypress (rawKey (ESC @ ''[5735'')), Keypress (rawKey (ESC @ ''[5735'')), Render,
         Keypress (rawKey (ESC @ ''[5735''))])
     = Some [rawKey (ESC @ ''[5735'')] \<and>
   map_option broadcast
     (run (sampleBound 8) (initialDecoder True)
        [Keypress (rawKey (ESC @ ''[5735'')), Keypress (rawKey (ESC @ ''[5735'')), Render, Render,
         Keypress (rawKey (ESC @ ''[5735''))])
     = Some []"
proof (intro conjI allI)
  fix m n
  show "\<exists>s. run (sampleBound m) (initialDecoder True)
              (replicate n (Keypress (rawKey (ESC @ ''[5735'')))) = Some s \<and>
            length (kittySequenceBufferAtom s) = 6 * n \<and> broadcast s = []"
    by (rule accumulator_from_start)
next
  from accumulator_from_start [of 256 43] obtain s where
    "run (sampleBound 256) (initialDecoder True)
       (replicate 43 (Keypress (rawKey (ESC @ ''[5735'')))) = Some s"
    "length (kittySequenceBufferAtom s) = 258" "broadcast s = []"
    by auto
  moreover have "MAX_KITTY_SEQUENCE_LENGTH (sampleBound 256) = 256"
    by (simp add: sampleBound_def)
  ultimately show "\<exists>s. run (sampleBound 256) (initialDecoder True)
            (replicate 43 (Keypress (rawKey (ESC @ ''[5735'')))) = Some s \<and>
          MAX_KITTY_SEQUENCE_LENGTH (sampleBound 256) < length (kittySequenceBufferAtom s) \<and>
          broadcast s = []"
    by auto
qed code_simp+

section \<open>A sequence split across two deliveries\<close>

text \<open>
  Line 348: a key that does not start with \<^verbatim>\<open>ESC\<close> passes by the accumulator, whatever
  the parser is and whatever the accumulator holds. In an idle decoder a plain key of
  that kind is broadcast as it is (after the pending backslash, if there is one).
\<close>

lemma handleKeypress_not_escape:
  assumes "idle s" and "plainKey h k" and "name k \<noteq> ''return'' \<or> \<not> waitingForEnterRef s"
    and "\<not> prefix ESC (sequence k)" and "sequence k \<noteq> BACKSLASH \<or> name k \<noteq> []"
  shows "handleKeypress h s k = Some (broadcastParsedKey (flushBackslash s k) k)"
proof -
  have "sequence k \<noteq> ESC @ [CR]" "sequence k \<noteq> ESC @ [LF]"
    using assms(4) by auto
  with assms have "handleKeypress h s k = handleKitty h (flushBackslash s k) k"
    by (intro handleKeypress_past_heuristics)
  also have "\<dots> = Some (broadcastParsedKey (flushBackslash s k) k)"
    using assms(4) by (intro handleKitty_not_taken) simp
  finally show ?thesis .
qed

text \<open>
  Claim C6 at a failing input. The handler gets its keys from readline (lines 235-241
  and 487), which holds back an unfinished control sequence but not a lone \<^verbatim>\<open>ESC\<close>: with
  \<^verbatim>\<open>escapeCodeTimeout\<close> at its default of 0 (lines 116, 237) an \<^verbatim>\<open>ESC\<close> at the end of a
  delivery becomes the Escape key before the next delivery is read. So the sequence
  \<^verbatim>\<open>ESC[97u\<close>, which the sample parser parses whole, split after its first character
  reaches the handler as the Escape key and then the characters \<^verbatim>\<open>[\<close>, \<^verbatim>\<open>9\<close>, \<^verbatim>\<open>7\<close>, \<^verbatim>\<open>u\<close>.
  With the extended protocol enabled, the Escape key broadcasts nothing and is
  accumulated (lines 348-408). None of the characters that follow starts with \<^verbatim>\<open>ESC\<close>,
  so line 348 passes each of them by the accumulator: four plain keys are broadcast
  and no key for \<^verbatim>\<open>ESC[97u\<close>, whether or not the provider renders in between. The same
  happens to a sequence that readline itself cuts, such as \<^verbatim>\<open>ESC[1072u\<close> with its
  four-digit number: its first part is accumulated and its last character is
  broadcast as the plain key \<^verbatim>\<open>u\<close>.
\<close>

theorem split_sequence_not_reassembled:
  "fst (parseKittySequence (sampleEnv False) (ESC @ ''[97u''))
     = Some (createSpecialKey ''97'' (ESC @ ''[97u'')) \<and>
   map_option broadcast
     (run (sampleEnv False) (initialDecoder True) [Keypress (rawKey (ESC @ ''[97u''))])
     = Some [createSpecialKey ''97'' (ESC @ ''[97u'')] \<and>
   map_option broadcast
     (run (sampleEnv False) (initialDecoder True) [Keypress escapeKey]) = Some [] \<and>
   map_option broadcast
     (run (sampleEnv False) (initialDecoder True)
        [Keypress escapeKey, Render, Render, Keypress (rawKey ''[''),
         Keypress (createSpecialKey ''9'' ''9''), Keypress (createSpecialKey ''7'' ''7''),
         Keypress (createSpecialKey ''u'' ''u'')])
     = Some [rawKey ''['', createSpecialKey ''9'' ''9'', createSpecialKey ''7'' ''7'',
             createSpecialKey ''u'' ''u''] \<and>
   map_option broadcast
     (run (sampleEnv False) (initialDecoder True)
        [Keypress escapeKey, Keypress (rawKey ''[''),
         Keypress (createSpecialKey ''9'' ''9''), Keypress (createSpecialKey ''7'' ''7''),
         Keypress (createSpecialKey ''u'' ''u'')])
     = Some [rawKey ''['', createSpecialKey ''9'' ''9'', createSpecialKey ''7'' ''7'',
             createSpecialKey ''u'' ''u''] \<and>
   fst (parseKittySequence (sampleEnv False) (ESC @ ''[1072u''))
     = Some (createSpecialKey ''1072'' (ESC @ ''[1072u'')) \<and>
   map_option broadcast
     (run (sampleEnv False) (initialDecoder True) [Keypress (rawKey (ESC @ ''[1072''))])
     = Some [] \<and>
   map_option broadcast
     (run (sampleEnv False) (initialDecoder True)
        [Keypress (rawKey (ESC @ ''[1072'')), Keypress (createSpecialKey ''u'' ''u'')])
     = Some [createSpecialKey ''u'' ''u'']"
  by code_simp

section \<open>Raw interception against decoded keypresses\<close>

text \<open>
  Claim C7 at a failing input. A focus report arrives while a paste is bracketed: the
  stream is the start marker, \<^verbatim>\<open>ESC[I\<close>, and the end marker. When raw data is
  intercepted, the chunk goes through the raw-data handler, which appends the focus
  report to the paste buffer like any other data (lines 460-464): one paste event with
  the text \<^verbatim>\<open>ESC[I\<close> is broadcast, and nothing is written to the keypress stream. When
  keypresses are decoded, the three keys go through the keypress handler, which
  discards a focus report before it looks at the paste state (lines 255-258): the
  paste buffer stays empty and no paste event is broadcast. A render afterwards
  changes neither outcome. With text around the focus report both paths broadcast one
  paste event, and the two events differ in their text.
\<close>

theorem focus_report_inside_paste:
  "map_option broadcast
     (run (sampleEnv True) (initialDecoder False)
        [RawData (bytesOf (PASTE_MODE_PREFIX @ ESC @ ''[I'' @ PASTE_MODE_SUFFIX))])
     = Some [createPasteKey (ESC @ ''[I'')] \<and>
   map_option written
     (run (sampleEnv True) (initialDecoder False)
        [RawData (bytesOf (PASTE_MODE_PREFIX @ ESC @ ''[I'' @ PASTE_MODE_SUFFIX))])
     = Some [] \<and>
   map_option broadcast
     (run (sampleEnv False) (initialDecoder False)
        [Keypress (rawKey PASTE_MODE_PREFIX), Keypress (rawKey (ESC @ ''[I'')),
         Keypress (rawKey PASTE_MODE_SUFFIX)])
     = Some [] \<and>
   map_option broadcast
     (run (sampleEnv True) (initialDecoder False)
        [RawData (bytesOf (PASTE_MODE_PREFIX @ ESC @ ''[I'' @ PASTE_MODE_SUFFIX)), Render])
     = Some [createPasteKey (ESC @ ''[I'')] \<and>
   map_option broadcast
     (run (sampleEnv False) (initialDecoder False)
        [Keypress (rawKey PASTE_MODE_PREFIX), Keypress (rawKey (ESC @ ''[I'')),
         Keypress (rawKey PASTE_MODE_SUFFIX), Render])
     = Some [] \<and>
   map_option broadcast
     (run (sampleEnv True) (initialDecoder False)
        [RawData (bytesOf (PASTE_MODE_PREFIX @ ''a'' @ ESC @ ''[I'' @ ''b'' @ PASTE_MODE_SUFFIX))])
     = Some [createPasteKey (''a'' @ ESC @ ''[I'' @ ''b'')] \<and>
   map_option broadcast
     (run (sampleEnv False) (initialDecoder False)
        [Keypress (rawKey PASTE_MODE_PREFIX), Keypress (rawKey ''a''),
         Keypress (rawKey (ESC @ ''[I'')), Keypress (rawKey ''b''),
         Keypress (rawKey PASTE_MODE_SUFFIX)])
     = Some [createPasteKey ''ab'']"
  by code_simp

section \<open>The handlers return\<close>

lemma kittyLoop_terminates:
  assumes "\<And>b k n. parse b = (Some k, n) \<Longrightarrow> 0 < n"
  shows "\<exists>y. kittyLoop parse buffer parsedAny out = Some y"
proof (induction "length buffer" arbitrary: buffer parsedAny out rule: less_induct)
  case less
  show ?case
  proof (cases "buffer = []")
    case True
    then show ?thesis by (subst kittyLoop.simps) simp
  next
    case False
    obtain key n where p: "parse buffer = (key, n)" by (cases "parse buffer")
    show ?thesis
    proof (cases key)
      case None
      show ?thesis
      proof (cases "indexOf buffer ESC 1")
        case none: None
        with False p None show ?thesis by (subst kittyLoop.simps) simp
      next
        case (Some ns)
        then have ns: "0 < ns" by (auto dest: indexOf_ge)
        with False have "length (drop ns buffer) < length buffer" by simp
        from less [OF this, of parsedAny out] False p None Some ns show ?thesis
          by (subst kittyLoop.simps) simp
      qed
    next
      case (Some k)
      with p assms have "0 < n" by blast
      with False have "length (drop n buffer) < length buffer" by simp
      from less [OF this, of True "out @ [k]"] False p Some show ?thesis
        by (subst kittyLoop.simps) simp
    qed
  qed
qed

lemma handleKeypress_branches [case_names focus start finish capture drag alt plain]:
  obtains "handleKeypress h s k = Some s"
  | "handleKeypress h s k = Some (setPasteMode True (s\<lparr>isPasteRef := True, pasteBufferRef := []\<rparr>))"
  | "handleKeypress h s k = Some (completePaste s)"
  | "handleKeypress h s k =
       Some (if usePassthrough h then s
             else appendToPasteBuffer (sequence k) (s\<lparr>pasteBufferRef := pasteBufferRef s @ sequence k\<rparr>))"
  | "handleKeypress h s k = Some (continueDrag s k)"
  | "handleKeypress h s k =
       Some (broadcastKey (k\<lparr>name := the (mapAltKeyCharacter h (sequence k)), meta := True\<rparr>) s)"
  | "idle s" and "plainKey h k"
proof -
  let ?sq = "sequence k"
  consider (focus) "fst (isFocusEvent h ?sq) \<or> snd (isFocusEvent h ?sq)"
    | (start) "\<not> fst (isFocusEvent h ?sq)" "\<not> snd (isFocusEvent h ?sq)"
        "fst (isPasteModeBoundary h ?sq)"
    | (finish) "\<not> fst (isFocusEvent h ?sq)" "\<not> snd (isFocusEvent h ?sq)"
        "\<not> fst (isPasteModeBoundary h ?sq)" "snd (isPasteModeBoundary h ?sq)"
    | (capture) "\<not> fst (isFocusEvent h ?sq)" "\<not> snd (isFocusEvent h ?sq)"
        "\<not> fst (isPasteModeBoundary h ?sq)" "\<not> snd (isPasteModeBoundary h ?sq)" "isPasteRef s"
    | (drag) "\<not> fst (isFocusEvent h ?sq)" "\<not> snd (isFocusEvent h ?sq)"
        "\<not> fst (isPasteModeBoundary h ?sq)" "\<not> snd (isPasteModeBoundary h ?sq)" "\<not> isPasteRef s"
        "isDragStart h ?sq \<or> isDraggingRef s"
    | (alt) "\<not> fst (isFocusEvent h ?sq)" "\<not> snd (isFocusEvent h ?sq)"
        "\<not> fst (isPasteModeBoundary h ?sq)" "\<not> snd (isPasteModeBoundary h ?sq)" "\<not> isPasteRef s"
        "\<not> (isDragStart h ?sq \<or> isDraggingRef s)"
        "mapAltKeyCharacter h ?sq \<noteq> None \<and> mapAltKeyCharacter h ?sq \<noteq> Some [] \<and> \<not> meta k"
    | (plain) "idle s" "plainKey h k"
    unfolding idle_def plainKey_def Let_def by argo
  then show ?thesis
  proof cases
    case focus
    then have "handleKeypress h s k = Some s"
      unfolding handleKeypress_def Let_def by (simp only: if_True)
    then show ?thesis by (rule that(1))
  next
    case start
    then show ?thesis by (intro that(2) handleKeypress_paste_start)
  next
    case finish
    then show ?thesis by (intro that(3) handleKeypress_paste_end)
  next
    case capture
    then show ?thesis by (intro that(4) handleKeypress_capturing)
  next
    case drag
    have f: "(fst (isFocusEvent h ?sq) \<or> snd (isFocusEvent h ?sq)) = False"
      using drag by simp
    have "handleKeypress h s k = Some (continueDrag s k)"
      unfolding handleKeypress_def Let_def
      by (simp only: f drag if_False if_True simp_thms)
    then show ?thesis by (rule that(5))
  next
    case alt
    have f: "(fst (isFocusEvent h ?sq) \<or> snd (isFocusEvent h ?sq)) = False"
      using alt by simp
    have "handleKeypress h s k =
        Some (broadcastKey (k\<lparr>name := the (mapAltKeyCharacter h ?sq), meta := True\<rparr>) s)"
      unfolding handleKeypress_def Let_def
      by (simp only: f alt if_False if_True simp_thms)
    then show ?thesis by (rule that(6))
  next
    case plain
    then show ?thesis by (rule that(7))
  qed
qed

lemma handleKitty_returns:
  assumes "\<And>b k n. parseKittySequence h b = (Some k, n) \<Longrightarrow> 0 < n"
  shows "\<exists>s'. handleKitty h s k = Some s'"
proof -
  obtain y where "kittyLoop (parseKittySequence h) (kittyBuffer s @ sequence k) False [] = Some y"
    using kittyLoop_terminates [of "parseKittySequence h"] assms by blast
  then show ?thesis
    unfolding handleKitty_def Let_def
    by (auto split: prod.splits option.splits)
qed

text \<open>
  The handlers return. The only loop that could run forever is the one over the
  accumulated buffer, and it ends when the parser consumes at least one character with
  every key it returns: then every run of keypresses, raw data, timers and renders has a
  result.
\<close>

theorem keypress_handler_returns:
  assumes "\<And>b k n. parseKittySequence h b = (Some k, n) \<Longrightarrow> 0 < n"
  shows "\<exists>s'. run h s ins = Some s'"
proof (induction ins arbitrary: s)
  case Nil
  then show ?case by simp
next
  case (Cons i ins)
  have "\<exists>s1. step h s i = Some s1"
  proof (cases i)
    case (Keypress k)
    have "\<exists>s1. handleKeypress h s k = Some s1"
    proof (cases rule: handleKeypress_branches [where h = h and s = s and k = k])
      case plain
      then show ?thesis
        using handleKitty_returns [where h = h and s = "flushBackslash s k" and k = k] assms
        by (auto simp: handleKeypress_plain)
    qed simp_all
    with Keypress show ?thesis by (simp add: step_def)
  qed (simp_all add: step_def)
  then obtain s1 where "step h s i = Some s1" ..
  with Cons.IH [of s1] show ?case by simp
qed

theorem keypress_handler_returns_witness:
  "\<exists>s'. run (sampleEnv False) (initialDecoder True)
          [Keypress escapeKey, Keypress (rawKey (ESC @ ''[98u'')), TimerFires 0, Render,
           RawData (bytesOf ''x'')] = Some s'"
proof -
  have "\<And>b k n. parseKittySequence (sampleEnv False) b = (Some k, n) \<Longrightarrow> 0 < n"
    by (auto simp: sampleEnv_def sampleParse_def Let_def split: if_splits)
  then show ?thesis
    by (rule keypress_handler_returns)
qed

section \<open>Facts about the listener set\<close>

lemma setValues_simps [simp]:
  "setValues [] = []"
  "setValues (None # es) = setValues es"
  "setValues (Some fn # es) = fn # setValues es"
  "setValues (es @ fs) = setValues es @ setValues fs"
  by (simp_all add: setValues_def)


lemma worldAfter_simps [simp]:
  "worldAfter fns data [] w = w"
  "worldAfter fns data (fn # fs) w = worldAfter fns data fs (world (fns fn data w))"
  by (simp_all add: worldAfter_def)









section \<open>Firing an event\<close>




end
